theory Spec2Isabelle
  imports Main "HOL-Library.Multiset"
begin

section \<open>Hash join orchestration (src/hash-join/join_compute_api.h)\<close>

text \<open>
  The header defines the host side of the hash join: \<open>pairs_to_decoupled\<close>,
  \<open>GenericJoinHash\<close>, \<open>LeftJoinHash\<close> and \<open>InnerJoinHash\<close>. The device kernels
  (\<open>build_hash_tbl\<close>, \<open>probe_hash_tbl_count_common\<close>, \<open>probe_hash_tbl\<close>), the
  multimap and the macro \<open>CUDA_RT_CALL\<close> come from \<open>join_kernels.cuh\<close> and other
  headers that are not part of the sources at hand.

  Conventions of the embedding.
  \<^item> \<open>size_type\<close> is a template parameter: a signed integer type of \<open>bits\<close> bits
    (\<open>int\<close> for \<open>bits = 32\<close>). Its values are integers, and every computation of the
    source on them is written with its width: C++ computes an expression over
    \<open>size_type\<close> operands in \<open>int\<close> (32 bits on the CUDA host platforms) or in
    \<open>size_type\<close> itself, whichever is wider, and converts the value to \<open>size_type\<close>
    when it is assigned to a \<open>size_type\<close> variable. A result outside the range is taken
    modulo the width, which is what the compiled code computes (the standard leaves the
    overflow of \<open>int\<close> and wider signed types undefined). \<open>size_t\<close> is the 64-bit
    unsigned type of these platforms.
  \<^item> A row index is a natural number. The source holds it in a \<open>size_type\<close> cell and
    copies it; the one computation on an index, the address \<open>index + output_npairs\<close> of
    line 54, is written with its width.
  \<^item> A column is what the source receives: an iterator (an index-to-value function) and,
    separately, a row count. An optional key column is \<open>None\<close> for the null pointer.
  \<^item> The device is an explicit environment: the status every runtime call returns, the
    error state a launch leaves behind, the order in which the materializing probe's
    workers reserve their slots, and the contents of freshly allocated memory.
  \<^item> The outcome of a call is \<open>None\<close> when a loop never ends, \<open>Some (Inl x)\<close> when the
    call is abandoned (an integer division by zero, the failure action of
    \<open>CUDA_RT_CALL\<close>, a failed allocation of the output array, or a write outside it),
    and \<open>Some (Inr r)\<close> when it
    returns; \<open>r\<close> holds the returned status, the caller's \<open>joined_output\<close> as the call
    leaves it, and the list of kernel launches and buffer operations in program order.
  \<^item> The launch geometry \<open>(count + block_size - 1) / block_size\<close> and the unchecked
    \<open>cudaMalloc\<close>/\<open>cudaMemset\<close> of the estimator's counter have no effect on what is
    modelled and are left out.
\<close>

subsection \<open>Data\<close>

type_synonym size_type = int

type_synonym row_index = nat

datatype cudaError_t = cudaSuccess | cudaError nat

datatype JoinType = INNER_JOIN | LEFT_JOIN

record join_pair =
  first :: row_index
  second :: row_index

definition DEFAULT_HASH_TBL_OCCUPANCY :: int where
  "DEFAULT_HASH_TBL_OCCUPANCY = 50"

definition DEFAULT_CUDA_BLOCK_SIZE :: nat where
  "DEFAULT_CUDA_BLOCK_SIZE = 128"

definition DEFAULT_CUDA_CACHE_SIZE :: nat where
  "DEFAULT_CUDA_CACHE_SIZE = 128"

text \<open>The runtime calls whose failure ends the call, in program order: the call sites
  wrapped in \<open>CUDA_RT_CALL\<close> and, before the last of them, the allocation of the output
  array by the constructor of \<open>mgpu::mem_t\<close> (line 202).\<close>

datatype rt_site =
    Malloc_joined_idx | MemsetAsync_joined_idx
  | Memcpy_scanSize | Free_common_probe
  | GetDevice | MallocManaged_tempOut | MemPrefetchAsync_tempOut | Memset_joined_idx
  | Memcpy_actual_found | Free_tempOut
  | Alloc_joined_output
  | Free_joined_idx

datatype launch = Prefetch_hash_tbl | Build_hash_tbl | Probe_count

record device =
  rt_call :: "rt_site \<Rightarrow> nat \<Rightarrow> cudaError_t"
  last_error :: "launch \<Rightarrow> nat \<Rightarrow> cudaError_t"
  synchronize :: "nat \<Rightarrow> cudaError_t"
  arrival :: "nat \<Rightarrow> join_pair list \<Rightarrow> join_pair list"
  uninitialized :: "nat \<Rightarrow> row_index"

text \<open>
  \<open>rt_call dev c k\<close> is the status of the runtime call at site \<open>c\<close> in iteration \<open>k\<close> of
  the loop around it (0 outside a loop); \<open>last_error dev l k\<close> is what
  \<open>cudaGetLastError()\<close> would report right after launch \<open>l\<close> (the source asks after the
  first two launches only); \<open>synchronize dev k\<close> is the status of the \<open>k\<close>-th
  \<open>cudaDeviceSynchronize()\<close>; \<open>arrival dev k\<close> orders the matches of the \<open>k\<close>-th
  materializing probe by the slot each one reserved.
\<close>

datatype abandon = Division_by_zero | CUDA_RT_CALL_failed cudaError_t
  | Allocation_failed cudaError_t | Write_out_of_bounds

datatype event =
    New_hash_tbl int
  | Launch_build size_type
  | Launch_count size_type
  | Launch_probe size_type
  | Free_buffer
  | Transpose size_type bool

record join_return =
  status :: cudaError_t
  joined_out :: "row_index list"
  trace :: "event list"

subsection \<open>Integer types\<close>

text \<open>The conversions to \<open>size_t\<close> and to a signed type of \<open>bits\<close> bits, the width in
  which an expression over \<open>size_type\<close> operands is computed, and the quotient of C++,
  which truncates towards zero.\<close>

definition to_size_t :: "int \<Rightarrow> int" where
  "to_size_t x = x mod 2 ^ 64"

definition to_size_type :: "nat \<Rightarrow> int \<Rightarrow> int" where
  "to_size_type bits x = (x + 2 ^ (bits - 1)) mod 2 ^ bits - 2 ^ (bits - 1)"

definition promoted :: "nat \<Rightarrow> nat" where
  "promoted bits = max bits 32"

definition to_promoted :: "nat \<Rightarrow> int \<Rightarrow> int" where
  "to_promoted bits x = to_size_type (promoted bits) x"

definition cpp_div :: "int \<Rightarrow> int \<Rightarrow> int" where
  "cpp_div x y = sgn x * sgn y * (\<bar>x\<bar> div \<bar>y\<bar>)"

subsection \<open>What the missing headers provide\<close>

text \<open>Modelled from the spec: the macro \<open>CUDA_RT_CALL\<close> is not in the sources. Section 7
  makes a failed runtime call fatal to the current call, surfacing its non-success status
  with no partial result. \<open>first_failure dev cs k\<close> runs the wrapped calls \<open>cs\<close> in order
  and gives the status of the first that fails.\<close>

fun first_failure :: "device \<Rightarrow> rt_site list \<Rightarrow> nat \<Rightarrow> cudaError_t option" where
  "first_failure dev [] k = None"
| "first_failure dev (c # cs) k =
     (if rt_call dev c k \<noteq> cudaSuccess then Some (rt_call dev c k)
      else first_failure dev cs k)"

text \<open>Modelled from the spec: a key component of a composite key. Section 6: up to three
  parallel key columns per side, each optional; section 8: for composite keys all key
  components match. A component takes part when both sides supply its column.\<close>

definition component_match ::
  "(nat \<Rightarrow> 'c) option \<Rightarrow> (nat \<Rightarrow> 'c) option \<Rightarrow> nat \<Rightarrow> nat \<Rightarrow> bool" where
  "component_match x y i j =
     (case x of None \<Rightarrow> True
      | Some f \<Rightarrow> (case y of None \<Rightarrow> True | Some g \<Rightarrow> f i = g j))"

text \<open>Modelled from the spec: the kernel \<open>build_hash_tbl\<close> is not in the sources. Section
  4.2: one worker per row of \<open>b\<close>, each inserting \<open>(b[i], i)\<close> into the shared multimap. The
  multimap is the list of its entries; a row count that is not positive has no rows.\<close>

definition build_hash_tbl :: "(nat \<Rightarrow> 'k) \<Rightarrow> size_type \<Rightarrow> ('k \<times> row_index) list" where
  "build_hash_tbl b b_count = map (\<lambda>i. (b i, i)) [0..<nat b_count]"

text \<open>Modelled from the spec: the lookup of one probe row. Section 4.1: a lookup gives a
  cursor over all entries matching a key; section 4.4: each match is a
  (left-index, right-index) pair.\<close>

definition row_matches ::
  "('k \<times> row_index) list \<Rightarrow> (nat \<Rightarrow> 'k) \<Rightarrow> (nat \<Rightarrow> 'k2) option \<Rightarrow> (nat \<Rightarrow> 'k2) option \<Rightarrow>
   (nat \<Rightarrow> 'k3) option \<Rightarrow> (nat \<Rightarrow> 'k3) option \<Rightarrow> nat \<Rightarrow> join_pair list" where
  "row_matches hash_tbl a a2 b2 a3 b3 i =
     map (\<lambda>e. \<lparr>first = i, second = snd e\<rparr>)
       (filter (\<lambda>e. fst e = a i \<and> component_match a2 b2 i (snd e) \<and>
                     component_match a3 b3 i (snd e)) hash_tbl)"

text \<open>Modelled from the spec: the matches of the first \<open>n\<close> probe rows, one lookup per
  row (sections 4.3 and 4.4). The spec describes the probes alike for both join types
  and leaves the emission of unmatched left rows open (section 9), so the join type does
  not enter.\<close>

definition all_matches ::
  "('k \<times> row_index) list \<Rightarrow> (nat \<Rightarrow> 'k) \<Rightarrow> nat \<Rightarrow> (nat \<Rightarrow> 'k2) option \<Rightarrow>
   (nat \<Rightarrow> 'k2) option \<Rightarrow> (nat \<Rightarrow> 'k3) option \<Rightarrow> (nat \<Rightarrow> 'k3) option \<Rightarrow> join_pair list" where
  "all_matches hash_tbl a n a2 b2 a3 b3 =
     concat (map (row_matches hash_tbl a a2 b2 a3 b3) [0..<n])"

text \<open>Modelled from the spec: the kernel \<open>probe_hash_tbl_count_common\<close> is not in the
  sources. Section 4.3, step 2: a counting-only probe over the sample that increments a
  global counter per match and writes no output. The result is the counter as the host
  reads it: a \<open>size_type\<close> cell, incremented once per match of the first
  \<open>a_sample_size\<close> rows (none if that is not positive).\<close>

definition probe_hash_tbl_count_common ::
  "nat \<Rightarrow> JoinType \<Rightarrow> ('k \<times> row_index) list \<Rightarrow> (nat \<Rightarrow> 'k) \<Rightarrow> size_type \<Rightarrow>
   (nat \<Rightarrow> 'k2) option \<Rightarrow> (nat \<Rightarrow> 'k2) option \<Rightarrow> (nat \<Rightarrow> 'k3) option \<Rightarrow> (nat \<Rightarrow> 'k3) option \<Rightarrow>
   size_type" where
  "probe_hash_tbl_count_common bits join_type hash_tbl a a_sample_size a2 b2 a3 b3 =
     to_size_type bits (int (length (all_matches hash_tbl a (nat a_sample_size) a2 b2 a3 b3)))"

text \<open>Modelled from the spec: the kernel \<open>probe_hash_tbl\<close> is not in the sources. Section
  4.4: one worker per row of \<open>a\<close>; each match atomically reserves a slot through the
  global counter and writes its pair; a write past the capacity \<open>scanSize\<close> is unsafe and
  its pair is not in the buffer. Section 5: the order of the pairs is the order in which
  the slots were reserved. The result is the buffer and the final counter, a
  \<open>size_type\<close> cell as above.\<close>

definition probe_hash_tbl ::
  "nat \<Rightarrow> device \<Rightarrow> nat \<Rightarrow> JoinType \<Rightarrow> ('k \<times> row_index) list \<Rightarrow> (nat \<Rightarrow> 'k) \<Rightarrow> size_type \<Rightarrow>
   (nat \<Rightarrow> 'k2) option \<Rightarrow> (nat \<Rightarrow> 'k2) option \<Rightarrow> (nat \<Rightarrow> 'k3) option \<Rightarrow> (nat \<Rightarrow> 'k3) option \<Rightarrow>
   size_type \<Rightarrow> join_pair list \<times> size_type" where
  "probe_hash_tbl bits dev k join_type hash_tbl a a_count a2 b2 a3 b3 scanSize =
     (take (nat scanSize) (arrival dev k (all_matches hash_tbl a (nat a_count) a2 b2 a3 b3)),
      to_size_type bits (int (length (all_matches hash_tbl a (nat a_count) a2 b2 a3 b3))))"

subsection \<open>\<open>pairs_to_decoupled\<close> (lines 47-58)\<close>

text \<open>A write to cell \<open>i\<close> of an array; outside the array it is undefined behaviour, the
  outcome \<open>None\<close>.\<close>

definition store :: "row_index list \<Rightarrow> int \<Rightarrow> row_index \<Rightarrow> row_index list option" where
  "store output_data i v =
     (if 0 \<le> i \<and> i < int (length output_data) then Some (output_data[nat i := v]) else None)"

text \<open>Each index writes two cells of the output; the cells of different indices are
  disjoint, so the order in which \<open>mgpu::transform\<close> runs them does not matter. The
  second address is the sum of two \<open>size_type\<close> values.\<close>

definition pairs_to_decoupled ::
  "nat \<Rightarrow> row_index list \<Rightarrow> size_type \<Rightarrow> join_pair list \<Rightarrow> bool \<Rightarrow> row_index list option" where
  "pairs_to_decoupled bits output_data output_npairs joined flip_indices =
     (if output_npairs > 0 then
        fold (\<lambda>index acc.
                case acc of None \<Rightarrow> None
                | Some out \<Rightarrow>
                   (case store out (int index)
                           (if flip_indices then second (joined ! index)
                            else first (joined ! index)) of
                      None \<Rightarrow> None
                    | Some out \<Rightarrow>
                       store out (to_promoted bits (int index + output_npairs))
                         (if flip_indices then first (joined ! index)
                          else second (joined ! index))))
          [0..<nat output_npairs] (Some output_data)
      else Some output_data)"

text \<open>Modelled from the spec: \<open>mgpu::mem_t<size_type>(n, context)\<close> belongs to a
  library that is not in the sources. Its constructor takes the number of cells as a
  \<open>size_t\<close>; the array has that many cells that nobody has written. Section 7: an
  allocation failure is fatal to the current call, with no partial result; whether the
  allocation fails is the device's.\<close>

definition mem_t :: "device \<Rightarrow> int \<Rightarrow> row_index list" where
  "mem_t dev n = map (uninitialized dev) [0..<nat (to_size_t n)]"

subsection \<open>\<open>GenericJoinHash\<close> (lines 71-210)\<close>

text \<open>Line 102: \<open>(size_type)((size_t) b_count * 100 / DEFAULT_HASH_TBL_OCCUPANCY)\<close>. Both
  conversions are modular.\<close>

definition hash_tbl_size :: "nat \<Rightarrow> size_type \<Rightarrow> int" where
  "hash_tbl_size bits b_count =
     to_size_type bits
       (to_size_t (to_size_t b_count * 100) div to_size_t DEFAULT_HASH_TBL_OCCUPANCY)"

text \<open>Lines 131-158, the estimator's \<open>do ... while(true)\<close>. \<open>counter s\<close> is the counter
  the counting probe leaves for a sample of \<open>s\<close> rows. The test of line 143 reads the
  variable \<open>error\<close>, which no statement of the loop assigns. Lines 147 and 153 to 155
  assign to \<open>size_type\<close> variables. A negative estimate neither leaves the loop nor
  changes the sample.\<close>

datatype estimate = Est_abandon abandon | Est_return cudaError_t "event list"
  | Est_done size_type "event list"

partial_function (option) estimate_loop ::
  "nat \<Rightarrow> device \<Rightarrow> cudaError_t \<Rightarrow> (size_type \<Rightarrow> size_type) \<Rightarrow> size_type \<Rightarrow> nat \<Rightarrow> size_type \<Rightarrow>
   size_type \<Rightarrow> event list \<Rightarrow> estimate option" where
  "estimate_loop bits dev error counter a_count k a_sample_size size_ratio tr =
     (let a_sample_size = (if a_sample_size > a_count then a_count else a_sample_size);
          tr = tr @ [Launch_count a_sample_size]
      in if error \<noteq> cudaSuccess then Some (Est_return error tr)
         else case first_failure dev [Memcpy_scanSize] k of
           Some e \<Rightarrow> Some (Est_abandon (CUDA_RT_CALL_failed e))
         | None \<Rightarrow>
            (let scanSize = to_size_type bits (counter a_sample_size * size_ratio)
             in case first_failure dev [Free_common_probe] k of
               Some e \<Rightarrow> Some (Est_abandon (CUDA_RT_CALL_failed e))
             | None \<Rightarrow>
                if scanSize > 0 \<or> a_sample_size = a_count then Some (Est_done scanSize tr)
                else if scanSize = 0 then
                  estimate_loop bits dev error counter a_count (k + 1)
                    (to_size_type bits (a_sample_size * 2))
                    (if to_size_type bits (cpp_div size_ratio 2) = 0 then 1
                     else to_size_type bits (cpp_div size_ratio 2)) tr
                else estimate_loop bits dev error counter a_count (k + 1) a_sample_size
                    size_ratio tr))"

declare estimate_loop.simps [code]

text \<open>Lines 122-158: the choice of the sample, then the loop. The product of line 124 is
  compared, not assigned; line 126 divides by \<open>b_count\<close> and assigns.\<close>

definition estimate_scan_size ::
  "nat \<Rightarrow> device \<Rightarrow> cudaError_t \<Rightarrow> (size_type \<Rightarrow> size_type) \<Rightarrow> size_type \<Rightarrow> size_type \<Rightarrow>
   event list \<Rightarrow> estimate option" where
  "estimate_scan_size bits dev error counter a_count b_count tr =
     (if a_count > to_promoted bits (5 * b_count) then
        (if b_count = 0 then Some (Est_abandon Division_by_zero)
         else estimate_loop bits dev error counter a_count 0 b_count
                (to_size_type bits (cpp_div a_count b_count + 1)) tr)
      else estimate_loop bits dev error counter a_count 0 a_count 1 tr)"

text \<open>Lines 173-201, the \<open>while(cont)\<close> loop. \<open>probe k scanSize\<close> is the buffer and the
  counter that the \<open>k\<close>-th materializing probe leaves for a buffer of \<open>scanSize\<close> pairs.
  Line 197 assigns the doubled capacity to the \<open>size_type\<close> variable \<open>scanSize\<close>.\<close>

datatype probed = Probe_abandon abandon
  | Probe_done cudaError_t size_type "join_pair list" "event list"

partial_function (option) probe_loop ::
  "nat \<Rightarrow> device \<Rightarrow> (nat \<Rightarrow> size_type \<Rightarrow> join_pair list \<times> size_type) \<Rightarrow> nat \<Rightarrow> size_type \<Rightarrow>
   event list \<Rightarrow> probed option" where
  "probe_loop bits dev probe k scanSize tr =
     (case first_failure dev
             [GetDevice, MallocManaged_tempOut, MemPrefetchAsync_tempOut, Memset_joined_idx] k of
        Some e \<Rightarrow> Some (Probe_abandon (CUDA_RT_CALL_failed e))
      | None \<Rightarrow>
         (let tempOut = fst (probe k scanSize);
              d_joined_idx = snd (probe k scanSize);
              tr = tr @ [Launch_probe scanSize];
              error = synchronize dev k
          in case first_failure dev [Memcpy_actual_found] k of
            Some e \<Rightarrow> Some (Probe_abandon (CUDA_RT_CALL_failed e))
          | None \<Rightarrow>
             (let h_actual_found = d_joined_idx
              in if scanSize < h_actual_found then
                   (case first_failure dev [Free_tempOut] k of
                      Some e \<Rightarrow> Some (Probe_abandon (CUDA_RT_CALL_failed e))
                    | None \<Rightarrow> probe_loop bits dev probe (k + 1) (to_size_type bits (scanSize * 2))
                                (tr @ [Free_buffer]))
                 else Some (Probe_done error h_actual_found tempOut tr))))"

declare probe_loop.simps [code]

text \<open>Line 202 passes \<open>2 * (h_actual_found)\<close>, an expression that is not assigned, to the
  constructor of the output array.\<close>

definition GenericJoinHash ::
  "nat \<Rightarrow> device \<Rightarrow> JoinType \<Rightarrow> row_index list \<Rightarrow> (nat \<Rightarrow> 'k) \<Rightarrow> size_type \<Rightarrow> (nat \<Rightarrow> 'k) \<Rightarrow>
   size_type \<Rightarrow> (nat \<Rightarrow> 'k2) option \<Rightarrow> (nat \<Rightarrow> 'k2) option \<Rightarrow> (nat \<Rightarrow> 'k3) option \<Rightarrow>
   (nat \<Rightarrow> 'k3) option \<Rightarrow> bool \<Rightarrow> (abandon + join_return) option" where
  "GenericJoinHash bits dev join_type joined_output a a_count b b_count a2 b2 a3 b3
       flip_results =
     (case first_failure dev [Malloc_joined_idx, MemsetAsync_joined_idx] 0 of
        Some e \<Rightarrow> Some (Inl (CUDA_RT_CALL_failed e))
      | None \<Rightarrow>
         (let tr = [New_hash_tbl (hash_tbl_size bits b_count)];
              error = last_error dev Prefetch_hash_tbl 0
          in if error \<noteq> cudaSuccess
             then Some (Inr \<lparr>status = error, joined_out = joined_output, trace = tr\<rparr>)
             else
              (let hash_tbl = build_hash_tbl b b_count;
                   tr = tr @ [Launch_build b_count];
                   error = last_error dev Build_hash_tbl 0
               in if error \<noteq> cudaSuccess
                  then Some (Inr \<lparr>status = error, joined_out = joined_output, trace = tr\<rparr>)
                  else
                   (case estimate_scan_size bits dev error
                           (\<lambda>a_sample_size. probe_hash_tbl_count_common bits join_type hash_tbl a
                               a_sample_size a2 b2 a3 b3) a_count b_count tr of
                      None \<Rightarrow> None
                    | Some (Est_abandon x) \<Rightarrow> Some (Inl x)
                    | Some (Est_return e tr) \<Rightarrow>
                        Some (Inr \<lparr>status = e, joined_out = joined_output, trace = tr\<rparr>)
                    | Some (Est_done scanSize tr) \<Rightarrow>
                        if scanSize = 0
                        then Some (Inr \<lparr>status = error, joined_out = joined_output, trace = tr\<rparr>)
                        else
                         (case probe_loop bits dev
                                 (\<lambda>k. probe_hash_tbl bits dev k join_type hash_tbl a a_count
                                     a2 b2 a3 b3) 0 scanSize tr of
                            None \<Rightarrow> None
                          | Some (Probe_abandon x) \<Rightarrow> Some (Inl x)
                          | Some (Probe_done error h_actual_found tempOut tr) \<Rightarrow>
                             (case first_failure dev [Alloc_joined_output] 0 of
                                Some e \<Rightarrow> Some (Inl (Allocation_failed e))
                              | None \<Rightarrow>
                                 (let joined_output =
                                        mem_t dev (to_promoted bits (2 * h_actual_found))
                                  in case pairs_to_decoupled bits joined_output h_actual_found
                                            tempOut flip_results of
                                       None \<Rightarrow> Some (Inl Write_out_of_bounds)
                                     | Some joined_output \<Rightarrow>
                                        (let tr = tr @ [Transpose h_actual_found flip_results]
                                         in case first_failure dev [Free_joined_idx] 0 of
                                           Some e \<Rightarrow> Some (Inl (CUDA_RT_CALL_failed e))
                                         | None \<Rightarrow>
                                            Some (Inr \<lparr>status = error,
                                                       joined_out = joined_output,
                                                       trace = tr\<rparr>)))))))))"

subsection \<open>\<open>LeftJoinHash\<close> (lines 221-232) and \<open>InnerJoinHash\<close> (lines 245-258)\<close>

definition LeftJoinHash ::
  "nat \<Rightarrow> device \<Rightarrow> row_index list \<Rightarrow> (nat \<Rightarrow> 'k) \<Rightarrow> size_type \<Rightarrow> (nat \<Rightarrow> 'k) \<Rightarrow> size_type \<Rightarrow>
   (nat \<Rightarrow> 'k2) option \<Rightarrow> (nat \<Rightarrow> 'k2) option \<Rightarrow> (nat \<Rightarrow> 'k3) option \<Rightarrow> (nat \<Rightarrow> 'k3) option \<Rightarrow>
   (abandon + join_return) option" where
  "LeftJoinHash bits dev joined_output a a_count b b_count a2 b2 a3 b3 =
     GenericJoinHash bits dev LEFT_JOIN joined_output a a_count b b_count a2 b2 a3 b3 False"

definition InnerJoinHash ::
  "nat \<Rightarrow> device \<Rightarrow> row_index list \<Rightarrow> (nat \<Rightarrow> 'k) \<Rightarrow> size_type \<Rightarrow> (nat \<Rightarrow> 'k) \<Rightarrow> size_type \<Rightarrow>
   (nat \<Rightarrow> 'k2) option \<Rightarrow> (nat \<Rightarrow> 'k2) option \<Rightarrow> (nat \<Rightarrow> 'k3) option \<Rightarrow> (nat \<Rightarrow> 'k3) option \<Rightarrow>
   (abandon + join_return) option" where
  "InnerJoinHash bits dev joined_output a a_count b b_count a2 b2 a3 b3 =
     (if b_count > a_count
      then GenericJoinHash bits dev INNER_JOIN joined_output b b_count a a_count b2 a2 b3 a3 True
      else GenericJoinHash bits dev INNER_JOIN joined_output a a_count b b_count a2 b2 a3 b3
             False)"

subsection \<open>The properties' vocabulary\<close>

text \<open>A device on which every wrapped runtime call succeeds, one whose first two
  launches leave no error behind, and one whose materializing probe delivers every
  match exactly once, in whatever order.\<close>

definition runtime_ok :: "device \<Rightarrow> bool" where
  "runtime_ok dev = (\<forall>c k. rt_call dev c k = cudaSuccess)"

definition launches_ok :: "device \<Rightarrow> bool" where
  "launches_ok dev =
     (last_error dev Prefetch_hash_tbl 0 = cudaSuccess \<and>
      last_error dev Build_hash_tbl 0 = cudaSuccess)"

definition fair_arrival :: "device \<Rightarrow> bool" where
  "fair_arrival dev = (\<forall>k xs. mset (arrival dev k xs) = mset xs)"

text \<open>The cross-matching index pairs of two inputs of \<open>m\<close> and \<open>n\<close> rows (spec, section
  8), and the pairs a transposed output array denotes: entry \<open>k\<close> of its first half with
  entry \<open>k\<close> of its second half.\<close>

definition matching_pairs ::
  "(nat \<Rightarrow> 'k) \<Rightarrow> nat \<Rightarrow> (nat \<Rightarrow> 'k) \<Rightarrow> nat \<Rightarrow> (nat \<Rightarrow> 'k2) option \<Rightarrow>
   (nat \<Rightarrow> 'k2) option \<Rightarrow> (nat \<Rightarrow> 'k3) option \<Rightarrow> (nat \<Rightarrow> 'k3) option \<Rightarrow> (nat \<times> nat) list" where
  "matching_pairs a m b n a2 b2 a3 b3 =
     concat (map (\<lambda>i. map (\<lambda>j. (i, j))
         (filter (\<lambda>j. a i = b j \<and> component_match a2 b2 i j \<and> component_match a3 b3 i j)
            [0..<n])) [0..<m])"

definition result_pairs :: "row_index list \<Rightarrow> (nat \<times> nat) list" where
  "result_pairs out = zip (take (length out div 2) out) (drop (length out div 2) out)"


definition is_count_launch :: "event \<Rightarrow> bool" where
  "is_count_launch e = (case e of Launch_count n \<Rightarrow> True | _ \<Rightarrow> False)"

definition is_probe_launch :: "event \<Rightarrow> bool" where
  "is_probe_launch e = (case e of Launch_probe n \<Rightarrow> True | _ \<Rightarrow> False)"

text \<open>How often a buffer of \<open>scanSize\<close> pairs has to double before it holds \<open>found\<close>
  pairs, and the launches of that many failed attempts; both in exact arithmetic. What
  line 197 makes of a capacity after \<open>n\<close> doublings.\<close>

function doublings :: "int \<Rightarrow> int \<Rightarrow> nat" where
  "doublings scanSize found =
     (if 0 < scanSize \<and> scanSize < found then Suc (doublings (scanSize * 2) found) else 0)"
  by pat_completeness auto
termination
  by (relation "measure (\<lambda>(scanSize, found). nat (found - scanSize))") auto

declare doublings.simps [simp del]

definition retries :: "int \<Rightarrow> nat \<Rightarrow> event list" where
  "retries scanSize n =
     concat (map (\<lambda>i. [Launch_probe (scanSize * 2 ^ i), Free_buffer]) [0..<n])"

definition doubled :: "nat \<Rightarrow> size_type \<Rightarrow> nat \<Rightarrow> size_type" where
  "doubled bits scanSize n = ((\<lambda>s. to_size_type bits (s * 2)) ^^ n) scanSize"

text \<open>The estimator in the words of the spec (section 4.3, steps 1 to 5), in exact
  arithmetic. A sample of more rows than the input has is the full input. The quotient of
  step 1 is HOL's, which is 0 for a zero divisor; the code is compared with these steps
  where \<open>b_count\<close> is not zero or the quotient is not taken.\<close>

partial_function (option) estimator_steps ::
  "(int \<Rightarrow> int) \<Rightarrow> int \<Rightarrow> int \<Rightarrow> int \<Rightarrow> int option" where
  "estimator_steps counter a_count sample ratio =
     (let estimate = counter (min sample a_count) * ratio
      in if estimate > 0 \<or> a_count \<le> sample then Some estimate
         else estimator_steps counter a_count (2 * sample) (max 1 (ratio div 2)))"

declare estimator_steps.simps [code]

definition estimator_spec :: "(int \<Rightarrow> int) \<Rightarrow> int \<Rightarrow> int \<Rightarrow> int option" where
  "estimator_spec counter a_count b_count =
     (if a_count > 5 * b_count
      then estimator_steps counter a_count b_count (a_count div b_count + 1)
      else estimator_steps counter a_count a_count 1)"

text \<open>The inputs on which no computation of the estimator leaves the range of
  \<open>size_type\<close>: twice the left row count, five times the right row count, and every
  counter times the first ratio are values of \<open>size_type\<close> (which has a value 1). The
  joins with \<open>M\<close> matching pairs for which the length \<open>2 * M\<close> of the output is a value
  of \<open>size_type\<close>, a type no wider than \<open>size_t\<close>; every buffer capacity that the
  retry loop tries is below that length. The joins on which neither the estimator nor the
  retry loop nor the output leaves the range.\<close>

definition estimator_in_range :: "nat \<Rightarrow> (size_type \<Rightarrow> size_type) \<Rightarrow> size_type \<Rightarrow> size_type \<Rightarrow> bool"
  where
  "estimator_in_range bits counter a_count b_count =
     (1 < bits \<and> 0 \<le> a_count \<and> 0 \<le> b_count \<and>
      2 * a_count < 2 ^ (bits - 1) \<and> 5 * b_count < 2 ^ (bits - 1) \<and>
      (\<forall>s. 0 \<le> s \<and> s \<le> a_count \<longrightarrow>
         0 \<le> counter s \<and> counter s * (a_count div b_count + 1) < 2 ^ (bits - 1)))"

definition output_in_range :: "nat \<Rightarrow> nat \<Rightarrow> bool" where
  "output_in_range bits M = (0 < bits \<and> bits \<le> 64 \<and> 2 * int M < 2 ^ (bits - 1))"

definition sizes_in_range :: "nat \<Rightarrow> size_type \<Rightarrow> size_type \<Rightarrow> nat \<Rightarrow> bool" where
  "sizes_in_range bits a_count b_count M =
     (1 < bits \<and> bits \<le> 64 \<and> 0 \<le> a_count \<and> 0 \<le> b_count \<and>
      2 * a_count < 2 ^ (bits - 1) \<and> 5 * b_count < 2 ^ (bits - 1) \<and>
      2 * int M < 2 ^ (bits - 1) \<and> int M * (a_count div b_count + 1) < 2 ^ (bits - 1))"

text \<open>What a loop has added to the launch list, and what a finished loop says about
  its result.\<close>

definition counts_only :: "event list \<Rightarrow> event list \<Rightarrow> bool" where
  "counts_only tr tr' = (\<exists>xs. tr' = tr @ xs \<and> xs \<noteq> [] \<and> list_all is_count_launch xs)"

definition est_post :: "cudaError_t \<Rightarrow> size_type \<Rightarrow> event list \<Rightarrow> estimate \<Rightarrow> bool" where
  "est_post error a_count tr res =
     (case res of Est_abandon x \<Rightarrow> True
      | Est_return e tr' \<Rightarrow> error \<noteq> cudaSuccess \<and> e = error \<and> counts_only tr tr'
      | Est_done n tr' \<Rightarrow> error = cudaSuccess \<and> counts_only tr tr' \<and>
          (n \<le> 0 \<longrightarrow> last tr' = Launch_count a_count))"

definition probe_post ::
  "nat \<Rightarrow> device \<Rightarrow> (nat \<Rightarrow> size_type \<Rightarrow> join_pair list \<times> size_type) \<Rightarrow> nat \<Rightarrow> size_type \<Rightarrow>
   event list \<Rightarrow> probed \<Rightarrow> bool" where
  "probe_post bits dev probe k scanSize tr res =
     (case res of Probe_abandon x \<Rightarrow> True
      | Probe_done e h buf tr' \<Rightarrow>
         (\<exists>n. e = synchronize dev (k + n) \<and> h = snd (probe (k + n) (doubled bits scanSize n)) \<and>
              buf = fst (probe (k + n) (doubled bits scanSize n)) \<and>
              h \<le> doubled bits scanSize n \<and>
              (\<exists>xs. tr' = tr @ xs @ [Launch_probe (doubled bits scanSize n)])))"

text \<open>Concrete inputs: a device without failures that hands the matches over in reverse
  order, one whose first synchronization reports an error, and columns.\<close>

definition quiet_device :: device where
  "quiet_device =
     \<lparr>rt_call = (\<lambda>c k. cudaSuccess), last_error = (\<lambda>l k. cudaSuccess),
      synchronize = (\<lambda>k. cudaSuccess), arrival = (\<lambda>k. rev), uninitialized = (\<lambda>i. 0)\<rparr>"

definition faulty_device :: device where
  "faulty_device =
     \<lparr>rt_call = (\<lambda>c k. cudaSuccess),
      last_error = (\<lambda>l k. if l = Probe_count then cudaError 1 else cudaSuccess),
      synchronize = (\<lambda>k. if k = 0 then cudaError 1 else cudaSuccess),
      arrival = (\<lambda>k. rev), uninitialized = (\<lambda>i. 0)\<rparr>"

definition skewed_left :: "nat \<Rightarrow> int" where
  "skewed_left i = [1, 0, 1, 1, 1, 1, 1, 1, 1, 1, 1] ! i"

definition small_right :: "nat \<Rightarrow> int" where
  "small_right i = [1, 2] ! i"

definition ones :: "nat \<Rightarrow> int" where
  "ones i = 1"

definition twos :: "nat \<Rightarrow> int" where
  "twos i = 2"

definition dense_left :: "nat \<Rightarrow> int" where
  "dense_left i = (if i = 1 then 0 else 1)"

definition no_column :: "(nat \<Rightarrow> int) option" where
  "no_column = None"

definition parity_column :: "(nat \<Rightarrow> int) option" where
  "parity_column = Some (\<lambda>i. int (i mod 2))"

definition zero_column :: "(nat \<Rightarrow> int) option" where
  "zero_column = Some (\<lambda>i. 0)"

section \<open>Conversions that change nothing\<close>

lemma to_size_t_id: "0 \<le> x \<Longrightarrow> x < 2 ^ 64 \<Longrightarrow> to_size_t x = x"
  by (simp add: to_size_t_def)

lemma to_size_type_id:
  assumes "0 < bits" "0 \<le> x" "x < 2 ^ (bits - 1)"
  shows "to_size_type bits x = x"
proof -
  have p: "(2::int) ^ bits = 2 ^ (bits - 1) + 2 ^ (bits - 1)"
    using assms(1) by (cases bits) simp_all
  have "(x + 2 ^ (bits - 1)) mod 2 ^ bits = x + 2 ^ (bits - 1)"
    using assms p by (intro mod_pos_pos_trivial) simp_all
  then show ?thesis by (simp add: to_size_type_def)
qed

lemma to_size_type_zero: "0 < bits \<Longrightarrow> to_size_type bits 0 = 0"
  by (simp add: to_size_type_id)

lemma promoted_range: "(2::int) ^ (bits - 1) \<le> 2 ^ (promoted bits - 1)"
  by (rule power_increasing) (simp_all add: promoted_def)

lemma to_promoted_id:
  assumes "0 \<le> x" "x < 2 ^ (promoted bits - 1)"
  shows "to_promoted bits x = x"
  unfolding to_promoted_def using assms by (intro to_size_type_id) (simp_all add: promoted_def)

lemma to_promoted_small:
  assumes "0 \<le> x" "x < 2 ^ (bits - 1)"
  shows "to_promoted bits x = x"
proof -
  from assms(2) promoted_range have "x < 2 ^ (promoted bits - 1)" by (rule less_le_trans)
  with assms(1) show ?thesis by (rule to_promoted_id)
qed

lemma cpp_div_nonneg: "0 \<le> x \<Longrightarrow> 0 \<le> y \<Longrightarrow> cpp_div x y = x div y"
  by (cases "x = 0"; cases "y = 0") (simp_all add: cpp_div_def)

lemma quotient_nonneg: "0 \<le> x \<Longrightarrow> 0 \<le> y \<Longrightarrow> 0 \<le> x div (y::int)"
  by (simp add: div_int_pos_iff)

lemma size_t_holds_size_type:
  assumes "bits \<le> 64" "0 \<le> x" "x < 2 ^ (bits - 1)"
  shows "to_size_t x = x"
proof -
  have "(2::int) ^ (bits - 1) \<le> 2 ^ 64"
    using assms(1) by (intro power_increasing) simp_all
  with assms(2,3) show ?thesis by (intro to_size_t_id) simp_all
qed

section \<open>The hash table capacity\<close>

lemma hash_tbl_size_in_range:
  assumes "0 < bits" "0 \<le> b_count" "b_count * 100 < 2 ^ 64" "2 * b_count < 2 ^ (bits - 1)"
  shows "hash_tbl_size bits b_count = 2 * b_count"
proof -
  have b: "b_count < 2 ^ 64" using assms(2,3) by linarith
  have "to_size_t (to_size_t b_count * 100) = b_count * 100"
    using assms(2,3) b by (simp add: to_size_t_id)
  moreover have "to_size_t DEFAULT_HASH_TBL_OCCUPANCY = 50"
    by (simp add: to_size_t_def DEFAULT_HASH_TBL_OCCUPANCY_def)
  moreover have "b_count * 100 div 50 = 2 * b_count" by simp
  ultimately show ?thesis
    using assms(1,2,4) by (simp add: hash_tbl_size_def to_size_type_id)
qed

section \<open>The transposition\<close>

lemma fold_decouple:
  "m \<le> n \<Longrightarrow> length out = 2 * n \<Longrightarrow>
   fold (\<lambda>i acc. (acc[i := f i])[i + n := g i]) [0..<m] out =
     map (\<lambda>i. if i < m then f i else if n \<le> i \<and> i < n + m then g (i - n) else out ! i)
       [0..<2 * n]"
proof (induction m)
  case 0
  then show ?case by (intro nth_equalityI) auto
next
  case (Suc m)
  then have "m \<le> n" by simp
  from Suc.IH [OF this Suc.prems(2)] show ?case
    using Suc.prems by (auto intro!: nth_equalityI simp: nth_list_update)
qed

lemma length_fold_update:
  "length (fold (\<lambda>i acc. (acc[i := f i])[i + n := g i]) xs out) = length out"
  by (induction xs arbitrary: out) simp_all

text \<open>While every address is inside the array and below the range of the type in which
  it is computed, the writes are those of the exact indices.\<close>

lemma fold_store:
  assumes "0 \<le> n" and "m \<le> nat n" and "nat n + m \<le> length out"
    and "n + int m \<le> 2 ^ (promoted bits - 1)"
  shows "fold (\<lambda>index acc.
            case acc of None \<Rightarrow> None
            | Some out \<Rightarrow>
               (case store out (int index) (f index) of
                  None \<Rightarrow> None
                | Some out \<Rightarrow> store out (to_promoted bits (int index + n)) (g index)))
          [0..<m] (Some out) =
         Some (fold (\<lambda>i acc. (acc[i := f i])[i + nat n := g i]) [0..<m] out)"
proof -
  define step where "step = (\<lambda>index acc.
            case acc of None \<Rightarrow> None
            | Some out \<Rightarrow>
               (case store out (int index) (f index) of
                  None \<Rightarrow> None
                | Some out \<Rightarrow> store out (to_promoted bits (int index + n)) (g index)))"
  have "fold step [0..<m] (Some out) =
      Some (fold (\<lambda>i acc. (acc[i := f i])[i + nat n := g i]) [0..<m] out)"
    using assms(2-4)
  proof (induction m)
    case 0
    show ?case by simp
  next
    case (Suc m)
    let ?old = "fold (\<lambda>i acc. (acc[i := f i])[i + nat n := g i]) [0..<m] out"
    have l: "length ?old = length out" by (rule length_fold_update)
    have p: "to_promoted bits (int m + n) = int m + n"
      using assms(1) Suc.prems(3) by (intro to_promoted_id) simp_all
    have a: "int m < int (length out)" "int m + n < int (length out)"
      using assms(1) Suc.prems(1,2) by linarith+
    have n: "nat (int m + n) = m + nat n" using assms(1) by simp
    from Suc.prems have "m \<le> nat n" "nat n + m \<le> length out"
      "n + int m \<le> 2 ^ (promoted bits - 1)"
      by simp_all
    from Suc.IH [OF this] have "fold step [0..<Suc m] (Some out) = step m (Some ?old)"
      by simp
    also have "\<dots> = Some ((?old[m := f m])[m + nat n := g m])"
      using a assms(1) by (simp add: step_def store_def l p n)
    finally show ?case by simp
  qed
  then show ?thesis by (simp only: step_def)
qed

lemma pairs_to_decoupled_eq:
  assumes "0 \<le> n" and "nat n \<le> length joined" and "length out = 2 * nat n"
    and "2 * n \<le> 2 ^ (promoted bits - 1)"
  shows "pairs_to_decoupled bits out n joined flip =
     Some (if flip then map second (take (nat n) joined) @ map first (take (nat n) joined)
           else map first (take (nat n) joined) @ map second (take (nat n) joined))"
proof (cases "n = 0")
  case True
  with assms show ?thesis by (simp add: pairs_to_decoupled_def)
next
  case False
  let ?f = "\<lambda>i. if flip then second (joined ! i) else first (joined ! i)"
  let ?g = "\<lambda>i. if flip then first (joined ! i) else second (joined ! i)"
  have "pairs_to_decoupled bits out n joined flip =
      Some (fold (\<lambda>i acc. (acc[i := ?f i])[i + nat n := ?g i]) [0..<nat n] out)"
    using False assms fold_store [where n = n and m = "nat n" and out = out and bits = bits and f = ?f and g = ?g]
    by (simp add: pairs_to_decoupled_def)
  also have "fold (\<lambda>i acc. (acc[i := ?f i])[i + nat n := ?g i]) [0..<nat n] out =
      map (\<lambda>i. if i < nat n then ?f i
            else if nat n \<le> i \<and> i < nat n + nat n then ?g (i - nat n) else out ! i)
        [0..<2 * nat n]"
    using assms(3) by (intro fold_decouple) simp_all
  also have "\<dots> = (if flip
      then map second (take (nat n) joined) @ map first (take (nat n) joined)
      else map first (take (nat n) joined) @ map second (take (nat n) joined))"
    using assms(2) by (auto intro!: nth_equalityI simp: nth_append)
  finally show ?thesis .
qed

lemma length_store: "store out i v = Some out' \<Longrightarrow> length out' = length out"
  by (auto simp: store_def split: if_splits)

lemma length_pairs_to_decoupled:
  assumes "pairs_to_decoupled bits out n joined flip = Some out'"
  shows "length out' = length out"
proof -
  have "fold (\<lambda>index acc.
            case acc of None \<Rightarrow> None
            | Some out \<Rightarrow>
               (case store out (int index) (f index) of
                  None \<Rightarrow> None
                | Some out \<Rightarrow> store out (h index) (g index))) xs acc = Some out' \<Longrightarrow>
        \<exists>out0. acc = Some out0 \<and> length out' = length out0"
    for f g :: "nat \<Rightarrow> nat" and h xs acc
  proof (induction xs arbitrary: acc)
    case Nil
    then show ?case by simp
  next
    case (Cons x xs)
    from Cons.IH [OF Cons.prems [simplified]] show ?case
      by (auto split: option.splits if_splits simp: store_def)
  qed
  from this [of _ _ _ _ "Some out"] assms show ?thesis
    by (auto simp: pairs_to_decoupled_def split: if_splits)
qed

lemma pairs_to_decoupled_nothing:
  "n \<le> 0 \<Longrightarrow> pairs_to_decoupled bits out n joined flip = Some out"
  by (simp add: pairs_to_decoupled_def)

section \<open>The estimator loop\<close>

lemma first_failure_ok: "runtime_ok dev \<Longrightarrow> first_failure dev cs k = None"
  by (induction cs) (simp_all add: runtime_ok_def)

lemma counts_only_one: "counts_only tr (tr @ [Launch_count n])"
  by (simp add: counts_only_def is_count_launch_def)

lemma counts_only_step: "counts_only (tr @ [Launch_count n]) tr' \<Longrightarrow> counts_only tr tr'"
  by (auto simp: counts_only_def is_count_launch_def)

lemma est_post_step:
  "est_post error a_count (tr @ [Launch_count n]) res \<Longrightarrow> est_post error a_count tr res"
  by (auto simp: est_post_def dest: counts_only_step split: estimate.splits)

text \<open>Whatever the arithmetic does: a returning estimator has launched counting probes
  only, and an estimate that is not positive comes from a probe over the whole input.\<close>

lemma estimate_loop_trace:
  assumes "estimate_loop bits dev error counter a_count k s r tr = Some res"
  shows "est_post error a_count tr res"
proof (rule estimate_loop.raw_induct
    [where P = "\<lambda>bits dev error counter a_count k s r tr res. est_post error a_count tr res",
      OF _ assms], goal_cases)
  case (1 f bits dev error counter a_count k s r tr res)
  define s' where "s' = (if a_count < s then a_count else s)"
  define n where "n = to_size_type bits (counter s' * r)"
  define r' where "r' = (if to_size_type bits (cpp_div r 2) = 0 then 1
    else to_size_type bits (cpp_div r 2))"
  define s2 where "s2 = to_size_type bits (s' * 2)"
  note body = 1(2) [unfolded Let_def, folded s'_def, folded n_def, folded r'_def,
      folded s2_def]
  show ?case
  proof (cases "error = cudaSuccess")
    case False
    with body have "res = Est_return error (tr @ [Launch_count s'])" by simp
    then show ?thesis using False counts_only_one [of tr s'] by (simp add: est_post_def)
  next
    case ok: True
    show ?thesis
    proof (cases "rt_call dev Memcpy_scanSize k = cudaSuccess \<and>
                  rt_call dev Free_common_probe k = cudaSuccess")
      case False
      with body ok obtain x where "res = Est_abandon x"
        by (auto split: if_splits)
      then show ?thesis by (simp add: est_post_def)
    next
      case rt: True
      show ?thesis
      proof (cases "0 < n \<or> s' = a_count")
        case True
        with body ok rt have "res = Est_done n (tr @ [Launch_count s'])"
          by simp
        then show ?thesis using ok True counts_only_one [of tr s']
          by (auto simp: est_post_def)
      next
        case False
        show ?thesis
        proof (cases "n = 0")
          case True
          with False body ok rt have "f bits dev error counter a_count (k + 1) s2 r'
              (tr @ [Launch_count s']) = Some res"
            by simp
          from 1(1) [OF this] show ?thesis by (rule est_post_step)
        next
          case neg: False
          with False body ok rt have "f bits dev error counter a_count (k + 1) s' r
              (tr @ [Launch_count s']) = Some res"
            by simp
          from 1(1) [OF this] show ?thesis by (rule est_post_step)
        qed
      qed
    qed
  qed
qed

text \<open>One turn of the loop on a device whose two wrapped calls succeed.\<close>

lemma estimate_loop_turn:
  assumes "rt_call dev Memcpy_scanSize k = cudaSuccess"
    and "rt_call dev Free_common_probe k = cudaSuccess"
  shows "estimate_loop bits dev cudaSuccess counter a_count k s r tr =
    (if 0 < to_size_type bits (counter (min s a_count) * r) \<or> a_count \<le> s
     then Some (Est_done (to_size_type bits (counter (min s a_count) * r))
            (tr @ [Launch_count (min s a_count)]))
     else if to_size_type bits (counter (min s a_count) * r) = 0
     then estimate_loop bits dev cudaSuccess counter a_count (Suc k)
            (to_size_type bits (s * 2))
            (if to_size_type bits (cpp_div r 2) = 0 then 1
             else to_size_type bits (cpp_div r 2)) (tr @ [Launch_count s])
     else estimate_loop bits dev cudaSuccess counter a_count (Suc k) s r
            (tr @ [Launch_count s]))"
proof (cases "a_count < s")
  case True
  then have "min s a_count = a_count" by simp
  with True show ?thesis
    using assms by (subst estimate_loop.simps) (simp add: Let_def)
next
  case False
  then have "min s a_count = s" by simp
  with False show ?thesis
    using assms by (subst estimate_loop.simps) (auto simp: Let_def)
qed

text \<open>The same turn while its computations stay in the range of \<open>size_type\<close>.\<close>

lemma estimate_loop_unfold:
  assumes "rt_call dev Memcpy_scanSize k = cudaSuccess"
    and "rt_call dev Free_common_probe k = cudaSuccess"
    and "0 < bits" and "0 \<le> min s a_count" and "2 * min s a_count < 2 ^ (bits - 1)"
    and "0 \<le> r" and "r < 2 ^ (bits - 1)"
    and "0 \<le> counter (min s a_count) * r" and "counter (min s a_count) * r < 2 ^ (bits - 1)"
  shows "estimate_loop bits dev cudaSuccess counter a_count k s r tr =
    (if 0 < counter (min s a_count) * r \<or> a_count \<le> s
     then Some (Est_done (counter (min s a_count) * r) (tr @ [Launch_count (min s a_count)]))
     else estimate_loop bits dev cudaSuccess counter a_count (Suc k) (2 * s) (max 1 (r div 2))
            (tr @ [Launch_count s]))"
proof -
  have n: "to_size_type bits (counter (min s a_count) * r) = counter (min s a_count) * r"
    using assms(3,8,9) by (rule to_size_type_id)
  have r2: "to_size_type bits (cpp_div r 2) = r div 2"
  proof -
    have "0 \<le> r div 2" "r div 2 < 2 ^ (bits - 1)" using assms(6,7) by simp_all
    with assms(3) show ?thesis by (simp add: cpp_div_nonneg [OF assms(6)] to_size_type_id)
  qed
  have r': "(if r div 2 = 0 then 1 else r div 2) = max 1 (r div 2)"
    using assms(6) by (simp add: max_def)
  note turn = estimate_loop_turn [OF assms(1,2), of bits counter a_count s r tr,
      unfolded n r2 r']
  show ?thesis
  proof (cases "0 < counter (min s a_count) * r \<or> a_count \<le> s")
    case True
    then show ?thesis by (simp only: turn if_True)
  next
    case False
    then have m: "min s a_count = s" by simp
    have "to_size_type bits (2 * s) = 2 * s"
      using assms(3,4,5) unfolding m by (intro to_size_type_id) simp_all
    then have s2: "to_size_type bits (s * 2) = 2 * s" by (simp add: mult.commute)
    from False assms(8) have z: "counter (min s a_count) * r = 0" by linarith
    show ?thesis
      using False by (simp only: turn [unfolded s2] z if_False if_True simp_thms)
  qed
qed

lemma estimator_steps_unfold:
  "estimator_steps counter a_count s r =
    (if 0 < counter (min s a_count) * r \<or> a_count \<le> s
     then Some (counter (min s a_count) * r)
     else estimator_steps counter a_count (2 * s) (max 1 (r div 2)))"
  by (subst estimator_steps.simps) (simp add: Let_def)

text \<open>The loop ends, with the result of the spec's steps, when twice the row count is in
  range and every counter times the first ratio \<open>R\<close> is.\<close>

lemma estimate_loop_refines:
  assumes rt: "runtime_ok dev" and bits: "0 < bits"
    and a: "0 \<le> a_count" "2 * a_count < 2 ^ (bits - 1)"
    and R: "R < 2 ^ (bits - 1)"
    and cnt: "\<And>s. 0 \<le> s \<Longrightarrow> s \<le> a_count \<Longrightarrow>
                0 \<le> counter s \<and> counter s * R < 2 ^ (bits - 1)"
    and s: "0 < s \<or> a_count \<le> s" and r: "1 \<le> r" "r \<le> R"
  shows "\<exists>n tr'. estimate_loop bits dev cudaSuccess counter a_count k s r tr =
              Some (Est_done n tr')
            \<and> estimator_steps counter a_count s r = Some n \<and> 0 \<le> n"
  using s r
proof (induction "nat (a_count - s)" arbitrary: k s r tr rule: less_induct)
  case less
  have rt': "rt_call dev Memcpy_scanSize k = cudaSuccess"
    "rt_call dev Free_common_probe k = cudaSuccess"
    using rt by (simp_all add: runtime_ok_def)
  have s0: "0 \<le> s" using less.prems(1) a(1) by linarith
  have m0: "0 \<le> min s a_count" "min s a_count \<le> a_count" using s0 a(1) by simp_all
  have m2: "2 * min s a_count < 2 ^ (bits - 1)" using a(2) by (simp add: min_def)
  have r0: "0 \<le> r" "r < 2 ^ (bits - 1)" using less.prems(2,3) R by linarith+
  from cnt [OF m0] have c: "0 \<le> counter (min s a_count)"
    "counter (min s a_count) * R < 2 ^ (bits - 1)"
    by simp_all
  have p0: "0 \<le> counter (min s a_count) * r" using c(1) r0(1) by simp
  have "counter (min s a_count) * r \<le> counter (min s a_count) * R"
    using less.prems(3) c(1) by (rule mult_left_mono)
  with c(2) have p1: "counter (min s a_count) * r < 2 ^ (bits - 1)" by linarith
  note e1 = estimate_loop_unfold [where counter = counter and s = s and a_count = a_count
      and r = r, OF rt' bits m0(1) m2 r0 p0 p1, of tr]
  note e2 = estimator_steps_unfold [of counter a_count s r]
  show ?case
  proof (cases "0 < counter (min s a_count) * r \<or> a_count \<le> s")
    case True
    with e1 e2 p0 show ?thesis by simp
  next
    case False
    with less.prems(1) have "nat (a_count - 2 * s) < nat (a_count - s)"
      and "0 < 2 * s \<or> a_count \<le> 2 * s"
      by auto
    moreover have "1 \<le> max 1 (r div 2)" "max 1 (r div 2) \<le> R"
      using less.prems(2,3) by auto
    ultimately obtain n tr' where
      "estimate_loop bits dev cudaSuccess counter a_count (Suc k) (2 * s) (max 1 (r div 2))
         (tr @ [Launch_count s]) = Some (Est_done n tr')"
      "estimator_steps counter a_count (2 * s) (max 1 (r div 2)) = Some n" "0 \<le> n"
      using less.hyps [of "2 * s" "max 1 (r div 2)" "Suc k" "tr @ [Launch_count s]"]
      by blast
    moreover from e1 False have "estimate_loop bits dev cudaSuccess counter a_count k s r tr =
      estimate_loop bits dev cudaSuccess counter a_count (Suc k) (2 * s) (max 1 (r div 2))
         (tr @ [Launch_count s])"
      by (simp only: if_False)
    moreover from e2 False have "estimator_steps counter a_count s r =
      estimator_steps counter a_count (2 * s) (max 1 (r div 2))"
      by (simp only: if_False)
    ultimately show ?thesis by simp
  qed
qed

lemma estimator_steps_zero:
  assumes "estimator_steps counter a_count s r = Some n"
  shows "1 \<le> r \<longrightarrow> n = 0 \<longrightarrow> counter a_count = 0"
proof (rule estimator_steps.raw_induct
    [where P = "\<lambda>counter a_count s r n. 1 \<le> r \<longrightarrow> n = 0 \<longrightarrow> counter a_count = 0",
      OF _ assms], goal_cases)
  case (1 f counter a_count s r n)
  define m where "m = counter (min s a_count) * r"
  note body = 1(2) [unfolded Let_def, folded m_def]
  show ?case
  proof (cases "0 < m \<or> a_count \<le> s")
    case True
    with body have "n = m" by simp
    with True show ?thesis by (auto simp: m_def min_def)
  next
    case False
    with body have "f counter a_count (2 * s) (max 1 (r div 2)) = Some n" by simp
    from 1(1) [OF this] show ?thesis by simp
  qed
qed

lemma estimator_steps_pos:
  assumes "estimator_steps counter a_count s r = Some n"
  shows "1 \<le> r \<longrightarrow> 0 < n \<longrightarrow> (\<exists>s'\<le>a_count. 0 < counter s')"
proof (rule estimator_steps.raw_induct
    [where P = "\<lambda>counter a_count s r n. 1 \<le> r \<longrightarrow> 0 < n \<longrightarrow> (\<exists>s'\<le>a_count. 0 < counter s')",
      OF _ assms], goal_cases)
  case (1 f counter a_count s r n)
  define m where "m = counter (min s a_count) * r"
  note body = 1(2) [unfolded Let_def, folded m_def]
  show ?case
  proof (cases "0 < m \<or> a_count \<le> s")
    case True
    with body have "n = m" by simp
    then show ?thesis
      by (auto simp: m_def zero_less_mult_iff intro!: exI [of _ "min s a_count"])
  next
    case False
    with body have "f counter a_count (2 * s) (max 1 (r div 2)) = Some n" by simp
    from 1(1) [OF this] show ?thesis by simp
  qed
qed


section \<open>The probe and retry loop\<close>

lemma retries_Suc:
  "retries scanSize (Suc n) = [Launch_probe scanSize, Free_buffer] @ retries (scanSize * 2) n"
proof -
  have "[0..<Suc n] = 0 # map Suc [0..<n]"
    by (simp add: upt_conv_Cons map_Suc_upt del: upt_Suc)
  then show ?thesis
    by (simp add: retries_def comp_def mult.assoc del: upt_Suc)
qed

lemma doublings_step:
  "0 < scanSize \<Longrightarrow> scanSize < found \<Longrightarrow>
   doublings scanSize found = Suc (doublings (scanSize * 2) found)"
  by (subst doublings.simps) simp

lemma doublings_stop: "\<not> (0 < scanSize \<and> scanSize < found) \<Longrightarrow> doublings scanSize found = 0"
  by (subst doublings.simps) simp

lemma doublings_enough: "0 < scanSize \<Longrightarrow> found \<le> scanSize * 2 ^ doublings scanSize found"
proof (induction scanSize found rule: doublings.induct)
  case (1 scanSize found)
  show ?case
  proof (cases "scanSize < found")
    case True
    with 1 show ?thesis by (simp add: doublings_step mult.assoc)
  next
    case False
    then show ?thesis by (simp add: doublings_stop)
  qed
qed

lemma doublings_under: "i < doublings n M \<Longrightarrow> n * 2 ^ i < M"
proof (induction n M arbitrary: i rule: doublings.induct)
  case (1 n M)
  show ?case
  proof (cases "0 < n \<and> n < M")
    case True
    show ?thesis
    proof (cases i)
      case 0
      with True show ?thesis by simp
    next
      case (Suc j)
      with 1(2) True have "j < doublings (n * 2) M" by (simp add: doublings_step)
      from 1(1) [OF True this] Suc show ?thesis by (simp add: mult.assoc)
    qed
  next
    case False
    with 1(2) show ?thesis by (simp add: doublings_stop)
  qed
qed

lemma doubled_Suc: "doubled bits scanSize (Suc n) = doubled bits (to_size_type bits (scanSize * 2)) n"
  unfolding doubled_def by (simp only: funpow_Suc_right comp_def)

text \<open>One turn of the loop on a device without failures.\<close>

lemma probe_loop_unfold:
  assumes "runtime_ok dev"
  shows "probe_loop bits dev probe k scanSize tr =
    (if scanSize < snd (probe k scanSize)
     then probe_loop bits dev probe (Suc k) (to_size_type bits (scanSize * 2))
            (tr @ [Launch_probe scanSize, Free_buffer])
     else Some (Probe_done (synchronize dev k) (snd (probe k scanSize)) (fst (probe k scanSize))
            (tr @ [Launch_probe scanSize])))"
  by (subst probe_loop.simps)
    (simp add: first_failure_ok [OF assms] Let_def del: first_failure.simps)

text \<open>The loop ends when twice the counter is in the range of \<open>size_type\<close>: every
  capacity it tries is below that.\<close>

lemma probe_loop_runs:
  assumes "runtime_ok dev" and "0 < bits" and "2 * h \<le> 2 ^ (bits - 1)"
    and "0 < scanSize" and "\<forall>k s. snd (probe k s) = h"
  shows "probe_loop bits dev probe k scanSize tr =
     Some (Probe_done (synchronize dev (k + doublings scanSize h)) h
        (fst (probe (k + doublings scanSize h) (scanSize * 2 ^ doublings scanSize h)))
        (tr @ retries scanSize (doublings scanSize h) @
           [Launch_probe (scanSize * 2 ^ doublings scanSize h)]))"
  using assms(4,5)
proof (induction scanSize h arbitrary: k tr rule: doublings.induct)
  case (1 scanSize h')
  from 1(3) assms(5) have h': "h' = h" by simp
  show ?case
  proof (cases "scanSize < h'")
    case True
    have "to_size_type bits (2 * scanSize) = 2 * scanSize"
      using assms(2,3) True 1(2) h' by (intro to_size_type_id) simp_all
    then have w: "to_size_type bits (scanSize * 2) = scanSize * 2" by (simp add: mult.commute)
    from True 1 have "probe_loop bits dev probe (Suc k) (scanSize * 2)
        (tr @ [Launch_probe scanSize, Free_buffer]) =
      Some (Probe_done (synchronize dev (Suc k + doublings (scanSize * 2) h')) h'
        (fst (probe (Suc k + doublings (scanSize * 2) h')
           (scanSize * 2 * 2 ^ doublings (scanSize * 2) h')))
        ((tr @ [Launch_probe scanSize, Free_buffer]) @
           retries (scanSize * 2) (doublings (scanSize * 2) h') @
           [Launch_probe (scanSize * 2 * 2 ^ doublings (scanSize * 2) h')]))"
      by simp
    moreover have "probe_loop bits dev probe k scanSize tr =
       probe_loop bits dev probe (Suc k) (scanSize * 2)
         (tr @ [Launch_probe scanSize, Free_buffer])"
      using True 1(3) by (subst probe_loop_unfold [OF assms(1)]) (simp add: w)
    moreover have "doublings scanSize h' = Suc (doublings (scanSize * 2) h')"
      using True 1(2) by (simp add: doublings_step)
    ultimately show ?thesis
      by (simp add: retries_Suc mult.assoc)
  next
    case False
    then have d: "doublings scanSize h' = 0" by (simp add: doublings_stop)
    have "probe_loop bits dev probe k scanSize tr =
       Some (Probe_done (synchronize dev k) h' (fst (probe k scanSize))
         (tr @ [Launch_probe scanSize]))"
      using False 1(3) by (subst probe_loop_unfold [OF assms(1)]) simp
    then show ?thesis by (simp add: d retries_def)
  qed
qed

text \<open>Whatever the arithmetic does: a returning loop has left the counter and the buffer
  of its last probe, whose capacity is the first one doubled some number of times by
  line 197, and was not below the counter.\<close>

lemma probe_post_step:
  "probe_post bits dev probe (Suc k) (to_size_type bits (scanSize * 2)) (tr @ ys) res \<Longrightarrow>
   probe_post bits dev probe k scanSize tr res"
proof (cases res)
  case (Probe_abandon x)
  then show ?thesis by (simp add: probe_post_def)
next
  case (Probe_done e h buf tr')
  let ?s = "to_size_type bits (scanSize * 2)"
  assume "probe_post bits dev probe (Suc k) ?s (tr @ ys) res"
  with Probe_done obtain n xs where
    "e = synchronize dev (Suc k + n)" "h = snd (probe (Suc k + n) (doubled bits ?s n))"
    "buf = fst (probe (Suc k + n) (doubled bits ?s n))" "h \<le> doubled bits ?s n"
    "tr' = (tr @ ys) @ xs @ [Launch_probe (doubled bits ?s n)]"
    by (auto simp: probe_post_def)
  then show ?thesis
    unfolding probe_post_def Probe_done
    by (auto intro!: exI [of _ "Suc n"] exI [of _ "ys @ xs"] simp: doubled_Suc)
qed

lemma probe_loop_done:
  assumes "probe_loop bits dev probe k scanSize tr = Some res"
  shows "probe_post bits dev probe k scanSize tr res"
proof (rule probe_loop.raw_induct [where P = probe_post, OF _ assms], goal_cases)
  case (1 f bits dev probe k scanSize tr res)
  note body = 1(2) [unfolded Let_def]
  show ?case
  proof (cases "first_failure dev
      [GetDevice, MallocManaged_tempOut, MemPrefetchAsync_tempOut, Memset_joined_idx] k = None
      \<and> first_failure dev [Memcpy_actual_found] k = None")
    case False
    with body obtain x where "res = Probe_abandon x"
      by (auto split: option.splits)
    then show ?thesis by (simp add: probe_post_def)
  next
    case ok: True
    show ?thesis
    proof (cases "scanSize < snd (probe k scanSize)")
      case False
      with body ok have "res = Probe_done (synchronize dev k) (snd (probe k scanSize))
          (fst (probe k scanSize)) (tr @ [Launch_probe scanSize])"
        by (auto split: option.splits)
      with False show ?thesis
        by (auto simp: probe_post_def doubled_def intro!: exI [of _ 0])
    next
      case True
      show ?thesis
      proof (cases "first_failure dev [Free_tempOut] k")
        case (Some e)
        with body ok True have "res = Probe_abandon (CUDA_RT_CALL_failed e)"
          by (auto split: option.splits)
        then show ?thesis by (simp add: probe_post_def)
      next
        case None
        with body ok True have "f bits dev probe (k + 1) (to_size_type bits (scanSize * 2))
            (tr @ [Launch_probe scanSize] @ [Free_buffer]) = Some res"
          by (auto split: option.splits)
        then have "probe_post bits dev probe (Suc k) (to_size_type bits (scanSize * 2))
            (tr @ [Launch_probe scanSize] @ [Free_buffer]) res"
          using 1(1) by simp
        then show ?thesis by (rule probe_post_step)
      qed
    qed
  qed
qed

text \<open>Where the loop cannot end: a buffer whose capacity has wrapped around to 0 stays at
  0, below a positive counter.\<close>

lemma probe_loop_stuck:
  assumes "runtime_ok dev" and "0 < bits" and "\<forall>k. 0 < snd (probe k 0)"
  shows "probe_loop bits dev probe k 0 tr = None"
proof (cases "probe_loop bits dev probe k 0 tr")
  case (Some res)
  have "\<not> (runtime_ok dev \<and> 0 < bits \<and> (\<forall>k. 0 < snd (probe k 0)) \<and> s = 0)"
    if "probe_loop bits dev probe k s tr = Some res" for s
  proof (rule probe_loop.raw_induct
    [where P = "\<lambda>bits dev probe k s tr res.
        \<not> (runtime_ok dev \<and> 0 < bits \<and> (\<forall>k. 0 < snd (probe k 0)) \<and> s = 0)",
      OF _ that], goal_cases)
    case (1 f bits dev probe k s tr res)
    show ?case
    proof
      assume c: "runtime_ok dev \<and> 0 < bits \<and> (\<forall>k. 0 < snd (probe k 0)) \<and> s = 0"
      then have z: "to_size_type bits 0 = 0" by (simp add: to_size_type_zero)
      from c have ff: "first_failure dev cs k = None" for cs
        by (simp add: first_failure_ok)
      from c 1(2) have "f bits dev probe (k + 1) 0 (tr @ [Launch_probe 0] @ [Free_buffer]) =
          Some res"
        by (simp add: Let_def z ff del: first_failure.simps)
      from 1(1) [OF this] c show False by simp
    qed
  qed
  from this [OF Some] assms show ?thesis by simp
qed simp

section \<open>The kernels and the pairs of an output array\<close>

lemma component_match_sym: "component_match x y i j = component_match y x j i"
  by (auto simp: component_match_def split: option.splits)

lemma row_matches_build:
  "map (\<lambda>p. (first p, second p)) (row_matches (build_hash_tbl b b_count) a a2 b2 a3 b3 i) =
   map (\<lambda>j. (i, j))
     (filter (\<lambda>j. a i = b j \<and> component_match a2 b2 i j \<and> component_match a3 b3 i j)
        [0..<nat b_count])"
proof -
  have "(\<lambda>j. b j = a i \<and> component_match a2 b2 i j \<and> component_match a3 b3 i j) =
        (\<lambda>j. a i = b j \<and> component_match a2 b2 i j \<and> component_match a3 b3 i j)"
    by auto
  then show ?thesis
    by (simp add: row_matches_def build_hash_tbl_def filter_map comp_def)
qed

lemma all_matches_pairs:
  "map (\<lambda>p. (first p, second p)) (all_matches (build_hash_tbl b b_count) a n a2 b2 a3 b3) =
   matching_pairs a n b (nat b_count) a2 b2 a3 b3"
  by (simp add: all_matches_def matching_pairs_def map_concat comp_def row_matches_build)

lemma length_all_matches:
  "length (all_matches (build_hash_tbl b b_count) a n a2 b2 a3 b3) =
     length (matching_pairs a n b (nat b_count) a2 b2 a3 b3)"
  using arg_cong [OF all_matches_pairs [of b b_count a n a2 b2 a3 b3], of length] by simp

lemma all_matches_split:
  "s \<le> n \<Longrightarrow> all_matches tbl a n a2 b2 a3 b3 =
     all_matches tbl a s a2 b2 a3 b3 @ concat (map (row_matches tbl a a2 b2 a3 b3) [s..<n])"
proof -
  assume "s \<le> n"
  then have "[0..<n] = [0..<s] @ [s..<n]"
    by (metis le_add_diff_inverse upt_add_eq_append zero_le)
  then show ?thesis by (simp add: all_matches_def)
qed

lemma count_mono:
  "s \<le> n \<Longrightarrow> length (all_matches tbl a s a2 b2 a3 b3) \<le> length (all_matches tbl a n a2 b2 a3 b3)"
  by (simp add: all_matches_split [of s n])

text \<open>The counter the host reads is the number of matches while that number is a value
  of \<open>size_type\<close>.\<close>

lemma counter_in_range:
  assumes "0 < bits" and "int (length (all_matches tbl a (nat n) a2 b2 a3 b3)) < 2 ^ (bits - 1)"
    and "s \<le> n"
  shows "probe_hash_tbl_count_common bits jt tbl a s a2 b2 a3 b3 =
     int (length (all_matches tbl a (nat s) a2 b2 a3 b3))"
proof -
  from assms(3) have "nat s \<le> nat n" by simp
  from count_mono [OF this, of tbl a a2 b2 a3 b3] assms(2)
  have "int (length (all_matches tbl a (nat s) a2 b2 a3 b3)) < 2 ^ (bits - 1)" by linarith
  with assms(1) show ?thesis
    unfolding probe_hash_tbl_count_common_def by (intro to_size_type_id) simp_all
qed

lemma set_matching_pairs:
  "set (matching_pairs a m b n a2 b2 a3 b3) =
     {(i, j). i < m \<and> j < n \<and> a i = b j \<and>
        component_match a2 b2 i j \<and> component_match a3 b3 i j}"
  by (auto simp: matching_pairs_def)

lemma matching_pairs_swap:
  "set (matching_pairs b n a m b2 a2 b3 a3) =
     prod.swap ` set (matching_pairs a m b n a2 b2 a3 b3)"
  by (auto simp: set_matching_pairs component_match_sym [of b2 a2] component_match_sym [of b3 a3]
        image_iff)

lemma result_pairs_append:
  "length xs = length ys \<Longrightarrow> result_pairs (xs @ ys) = zip xs ys"
  by (simp add: result_pairs_def)

lemma result_pairs_transposed:
  "result_pairs (map first buf @ map second buf) = map (\<lambda>p. (first p, second p)) buf"
  "result_pairs (map second buf @ map first buf) = map (\<lambda>p. (second p, first p)) buf"
  by (simp_all add: result_pairs_append zip_map_map zip_same_conv_map)

lemma length_mem_t: "length (mem_t dev n) = nat (to_size_t n)"
  by (simp add: mem_t_def)

section \<open>\<open>GenericJoinHash\<close>: what a returning call has done\<close>

lemma GenericJoinHash_after_build:
  assumes "first_failure dev [Malloc_joined_idx, MemsetAsync_joined_idx] 0 = None"
    and "last_error dev Prefetch_hash_tbl 0 = cudaSuccess"
    and "last_error dev Build_hash_tbl 0 = cudaSuccess"
  shows "GenericJoinHash bits dev jt out0 a a_count b b_count a2 b2 a3 b3 flip =
    (case estimate_scan_size bits dev cudaSuccess
            (\<lambda>s. probe_hash_tbl_count_common bits jt (build_hash_tbl b b_count) a s a2 b2 a3 b3)
            a_count b_count [New_hash_tbl (hash_tbl_size bits b_count), Launch_build b_count] of
       None \<Rightarrow> None
     | Some (Est_abandon x) \<Rightarrow> Some (Inl x)
     | Some (Est_return e tr) \<Rightarrow> Some (Inr \<lparr>status = e, joined_out = out0, trace = tr\<rparr>)
     | Some (Est_done scanSize tr) \<Rightarrow>
         if scanSize = 0
         then Some (Inr \<lparr>status = cudaSuccess, joined_out = out0, trace = tr\<rparr>)
         else
          (case probe_loop bits dev
                  (\<lambda>k. probe_hash_tbl bits dev k jt (build_hash_tbl b b_count) a a_count
                      a2 b2 a3 b3)
                  0 scanSize tr of
             None \<Rightarrow> None
           | Some (Probe_abandon x) \<Rightarrow> Some (Inl x)
           | Some (Probe_done e h buf tr) \<Rightarrow>
               (case first_failure dev [Alloc_joined_output] 0 of
                  Some e \<Rightarrow> Some (Inl (Allocation_failed e))
                | None \<Rightarrow>
                   (case pairs_to_decoupled bits (mem_t dev (to_promoted bits (2 * h))) h buf
                           flip of
                      None \<Rightarrow> Some (Inl Write_out_of_bounds)
                    | Some out \<Rightarrow>
                       (case first_failure dev [Free_joined_idx] 0 of
                          Some e \<Rightarrow> Some (Inl (CUDA_RT_CALL_failed e))
                        | None \<Rightarrow>
                           Some (Inr \<lparr>status = e, joined_out = out,
                              trace = tr @ [Transpose h flip]\<rparr>))))))"
  unfolding GenericJoinHash_def Let_def assms(1) option.case
  by (simp only: assms(2,3) simp_thms if_False append.simps)

lemma counts_no_probe: "list_all is_count_launch xs \<Longrightarrow> \<not> list_ex is_probe_launch xs"
  by (induction xs) (auto simp: is_count_launch_def is_probe_launch_def split: event.splits)

lemma estimate_scan_size_trace:
  assumes "estimate_scan_size bits dev error counter a_count b_count tr = Some res"
  shows "res = Est_abandon Division_by_zero \<or> est_post error a_count tr res"
  using assms estimate_loop_trace
  by (auto simp: estimate_scan_size_def split: if_splits)

text \<open>A call that returns has either stopped before the materializing probe, with
  \<open>joined_output\<close> as it was, or has transposed the buffer of its last probe into an
  array of as many cells as line 202 asks for.\<close>

lemma GenericJoinHash_returns:
  assumes ret: "GenericJoinHash bits dev jt out0 a a_count b b_count a2 b2 a3 b3 flip =
      Some (Inr r)"
  shows "(\<exists>tl. trace r = New_hash_tbl (hash_tbl_size bits b_count) # tl) \<and>
    ((joined_out r = out0 \<and> \<not> list_ex is_probe_launch (trace r) \<and>
        list_ex is_count_launch (trace r) = (status r = cudaSuccess)) \<or>
     (\<exists>k sz init.
        to_size_type bits (int (length
          (all_matches (build_hash_tbl b b_count) a (nat a_count) a2 b2 a3 b3))) \<le> sz \<and>
        status r = synchronize dev k \<and>
        pairs_to_decoupled bits
          (mem_t dev (to_promoted bits (2 * to_size_type bits (int (length
             (all_matches (build_hash_tbl b b_count) a (nat a_count) a2 b2 a3 b3))))))
          (to_size_type bits (int (length
             (all_matches (build_hash_tbl b b_count) a (nat a_count) a2 b2 a3 b3))))
          (take (nat sz) (arrival dev k
             (all_matches (build_hash_tbl b b_count) a (nat a_count) a2 b2 a3 b3)))
          flip = Some (joined_out r) \<and>
        trace r = init @ [Launch_probe sz,
          Transpose (to_size_type bits (int (length
             (all_matches (build_hash_tbl b b_count) a (nat a_count) a2 b2 a3 b3)))) flip]))"
    (is "?head \<and> (?early \<or> ?late)")
proof -
  let ?ms = "all_matches (build_hash_tbl b b_count) a (nat a_count) a2 b2 a3 b3"
  let ?h = "to_size_type bits (int (length ?ms))"
  let ?new = "New_hash_tbl (hash_tbl_size bits b_count)"
  let ?cnt = "\<lambda>s. probe_hash_tbl_count_common bits jt (build_hash_tbl b b_count) a s a2 b2 a3 b3"
  let ?probe = "\<lambda>k. probe_hash_tbl bits dev k jt (build_hash_tbl b b_count) a a_count
      a2 b2 a3 b3"
  have ff: "first_failure dev [Malloc_joined_idx, MemsetAsync_joined_idx] 0 = None"
  proof (cases "first_failure dev [Malloc_joined_idx, MemsetAsync_joined_idx] 0")
    case (Some e)
    with ret show ?thesis unfolding GenericJoinHash_def by (simp only: option.case) simp
  qed simp
  show ?thesis
  proof (cases "last_error dev Prefetch_hash_tbl 0 = cudaSuccess")
    case False
    with ret have "r = \<lparr>status = last_error dev Prefetch_hash_tbl 0, joined_out = out0,
        trace = [?new]\<rparr>"
      unfolding GenericJoinHash_def Let_def ff option.case by simp
    then show ?thesis using False by (simp add: is_probe_launch_def is_count_launch_def)
  next
    case pre: True
    show ?thesis
    proof (cases "last_error dev Build_hash_tbl 0 = cudaSuccess")
      case False
      with ret pre have "r = \<lparr>status = last_error dev Build_hash_tbl 0, joined_out = out0,
          trace = [?new, Launch_build b_count]\<rparr>"
        unfolding GenericJoinHash_def Let_def ff option.case by simp
      then show ?thesis using False by (simp add: is_probe_launch_def is_count_launch_def)
    next
      case build: True
      note red = ret [unfolded GenericJoinHash_after_build [OF ff pre build]]
      from red obtain res where
        est: "estimate_scan_size bits dev cudaSuccess ?cnt a_count b_count
            [?new, Launch_build b_count] = Some res"
        by (cases "estimate_scan_size bits dev cudaSuccess ?cnt a_count b_count
            [?new, Launch_build b_count]") simp_all
      from red est have nd: "res \<noteq> Est_abandon Division_by_zero" by auto
      with estimate_scan_size_trace [OF est]
      have post: "est_post cudaSuccess a_count [?new, Launch_build b_count] res" by simp
      from red est post obtain n tr where res: "res = Est_done n tr"
        and tr: "counts_only [?new, Launch_build b_count] tr"
        by (cases res) (simp_all add: est_post_def)
      from tr obtain xs where xs: "tr = [?new, Launch_build b_count] @ xs" "xs \<noteq> []"
        "list_all is_count_launch xs"
        by (auto simp: counts_only_def)
      show ?thesis
      proof (cases "n = 0")
        case True
        with red est res have "r = \<lparr>status = cudaSuccess, joined_out = out0, trace = tr\<rparr>"
          by simp
        moreover from xs(2,3) have "list_ex is_count_launch xs"
          by (cases xs) simp_all
        ultimately show ?thesis using xs counts_no_probe [OF xs(3)]
          by (simp add: is_probe_launch_def)
      next
        case False
        with red est res obtain pres where pl: "probe_loop bits dev ?probe 0 n tr = Some pres"
          by (cases "probe_loop bits dev ?probe 0 n tr") simp_all
        from red est res False pl obtain e h buf tr' where
          pres: "pres = Probe_done e h buf tr'"
          by (cases pres) simp_all
        from red est res False pl pres have
          al: "first_failure dev [Alloc_joined_output] 0 = None"
          by (cases "first_failure dev [Alloc_joined_output] 0") simp_all
        from red est res False pl pres al obtain out where
          out: "pairs_to_decoupled bits (mem_t dev (to_promoted bits (2 * h))) h buf flip =
            Some out"
          by (cases "pairs_to_decoupled bits (mem_t dev (to_promoted bits (2 * h))) h buf flip")
            simp_all
        from red est res False pl pres al out have
          r: "r = \<lparr>status = e, joined_out = out, trace = tr' @ [Transpose h flip]\<rparr>"
          by (cases "first_failure dev [Free_joined_idx] 0") simp_all
        from probe_loop_done [OF pl] pres obtain m ys where
          m: "e = synchronize dev m" "h = ?h"
            "buf = take (nat (doubled bits n m)) (arrival dev m ?ms)" "h \<le> doubled bits n m"
            "tr' = tr @ ys @ [Launch_probe (doubled bits n m)]"
          by (auto simp: probe_post_def probe_hash_tbl_def)
        have ?head using r m(5) xs(1) by simp
        moreover have ?late
          using r m out
          by (intro exI [of _ m] exI [of _ "doubled bits n m"] exI [of _ "tr @ ys"]) simp
        ultimately show ?thesis by blast
      qed
    qed
  qed
qed

section \<open>The estimator against the steps of the spec\<close>

lemma estimate_scan_size_refines:
  assumes rt: "runtime_ok dev" and range: "estimator_in_range bits counter a_count b_count"
    and nz: "0 < b_count \<or> a_count = 0"
  shows "\<exists>n tr'. estimate_scan_size bits dev cudaSuccess counter a_count b_count tr =
              Some (Est_done n tr') \<and> counts_only tr tr' \<and>
            (n = 0 \<longrightarrow> last tr' = Launch_count a_count) \<and>
            estimator_spec counter a_count b_count = Some n \<and> 0 \<le> n"
proof -
  let ?R = "a_count div b_count + 1"
  from range have bits: "1 < bits" and a0: "0 \<le> a_count" and b0: "0 \<le> b_count"
    and a2: "2 * a_count < 2 ^ (bits - 1)" and b5: "5 * b_count < 2 ^ (bits - 1)"
    and cnt: "\<And>s. 0 \<le> s \<Longrightarrow> s \<le> a_count \<Longrightarrow>
        0 \<le> counter s \<and> counter s * ?R < 2 ^ (bits - 1)"
    by (simp_all add: estimator_in_range_def)
  from bits have bits0: "0 < bits" by simp
  have R1: "1 \<le> ?R" using quotient_nonneg [OF a0 b0] by simp
  have five: "to_promoted bits (5 * b_count) = 5 * b_count"
    using b0 b5 by (intro to_promoted_small) simp_all
  have one: "(1::int) < 2 ^ (bits - 1)"
  proof -
    have "(2::int) ^ 1 \<le> 2 ^ (bits - 1)" using bits by (intro power_increasing) simp_all
    then show ?thesis by simp
  qed
  have "\<exists>n tr'. estimate_scan_size bits dev cudaSuccess counter a_count b_count tr =
              Some (Est_done n tr') \<and> estimator_spec counter a_count b_count = Some n \<and> 0 \<le> n
          \<and> est_post cudaSuccess a_count tr (Est_done n tr')"
  proof (cases "5 * b_count < a_count")
    case True
    with nz b0 have bp: "0 < b_count" by auto
    from True b0 have ap: "1 \<le> a_count" by linarith
    have "a_count div b_count \<le> a_count"
      using zdiv_mono2 [of a_count 1 b_count] a0 bp by simp
    with ap a2 have Rlt: "?R < 2 ^ (bits - 1)" by linarith
    have ratio: "to_size_type bits (cpp_div a_count b_count + 1) = ?R"
      using bits0 R1 Rlt a0 b0 by (simp add: cpp_div_nonneg to_size_type_id)
    from estimate_loop_refines [where counter = counter and R = ?R and s = b_count
        and r = ?R and k = 0 and tr = tr, OF rt bits0 a0 a2 Rlt cnt] bp R1
    obtain n tr' where l: "estimate_loop bits dev cudaSuccess counter a_count 0 b_count ?R tr =
        Some (Est_done n tr')" and e: "estimator_steps counter a_count b_count ?R = Some n"
      and n: "0 \<le> n"
      by auto
    from estimate_loop_trace [OF l] l e n True bp show ?thesis
      by (simp add: estimate_scan_size_def estimator_spec_def five ratio)
  next
    case False
    have cnt1: "0 \<le> counter s \<and> counter s * 1 < 2 ^ (bits - 1)"
      if "0 \<le> s" "s \<le> a_count" for s
    proof -
      from cnt [OF that] have c: "0 \<le> counter s" "counter s * ?R < 2 ^ (bits - 1)" by simp_all
      from R1 c(1) have "counter s * 1 \<le> counter s * ?R" by (rule mult_left_mono)
      with c show ?thesis by linarith
    qed
    from estimate_loop_refines [where counter = counter and R = 1 and s = a_count
        and r = 1 and k = 0 and tr = tr, OF rt bits0 a0 a2 one cnt1]
    obtain n tr' where l: "estimate_loop bits dev cudaSuccess counter a_count 0 a_count 1 tr =
        Some (Est_done n tr')" and e: "estimator_steps counter a_count a_count 1 = Some n"
      and n: "0 \<le> n"
      by auto
    from estimate_loop_trace [OF l] l e n False show ?thesis
      by (simp add: estimate_scan_size_def estimator_spec_def five)
  qed
  then show ?thesis by (auto simp: est_post_def)
qed

lemma estimator_spec_zero_iff:
  assumes "estimator_spec counter a_count b_count = Some n" and "0 \<le> n"
    and "0 \<le> a_count" and "0 \<le> b_count"
    and mono: "\<And>s. s \<le> a_count \<Longrightarrow> counter s \<le> counter a_count"
  shows "n = 0 \<longleftrightarrow> counter a_count = 0"
proof -
  have R1: "1 \<le> a_count div b_count + 1"
    using quotient_nonneg [OF assms(3,4)] by simp
  from assms(1) obtain s r where st: "estimator_steps counter a_count s r = Some n"
    and r: "1 \<le> r"
    using R1 by (auto simp: estimator_spec_def split: if_splits)
  show ?thesis
  proof
    assume "n = 0"
    with estimator_steps_zero [OF st] r show "counter a_count = 0" by simp
  next
    assume z: "counter a_count = 0"
    show "n = 0"
    proof (rule ccontr)
      assume "n \<noteq> 0"
      with assms(2) have "0 < n" by simp
      with estimator_steps_pos [OF st] r obtain s' where "s' \<le> a_count" "0 < counter s'"
        by auto
      with mono [of s'] z show False by simp
    qed
  qed
qed

section \<open>\<open>GenericJoinHash\<close> on a device without failures\<close>

lemma output_range_of_sizes: "sizes_in_range bits a_count b_count M \<Longrightarrow> output_in_range bits M"
  by (simp add: sizes_in_range_def output_in_range_def)

text \<open>The counting probe of a join whose sizes are in range: its counter is the number
  of matches of the sample, and no product of the estimator leaves the range.\<close>

lemma counting_probe_in_range:
  assumes range: "sizes_in_range bits a_count b_count
        (length (matching_pairs a (nat a_count) b (nat b_count) a2 b2 a3 b3))"
  shows "estimator_in_range bits
        (\<lambda>s. probe_hash_tbl_count_common bits jt (build_hash_tbl b b_count) a s a2 b2 a3 b3)
        a_count b_count"
    and "s \<le> a_count \<Longrightarrow>
      probe_hash_tbl_count_common bits jt (build_hash_tbl b b_count) a s a2 b2 a3 b3 =
        int (length (all_matches (build_hash_tbl b b_count) a (nat s) a2 b2 a3 b3))"
    and "s \<le> a_count \<Longrightarrow>
      probe_hash_tbl_count_common bits jt (build_hash_tbl b b_count) a s a2 b2 a3 b3 \<le>
        int (length (matching_pairs a (nat a_count) b (nat b_count) a2 b2 a3 b3))"
proof -
  let ?tbl = "build_hash_tbl b b_count"
  let ?M = "length (matching_pairs a (nat a_count) b (nat b_count) a2 b2 a3 b3)"
  let ?cnt = "\<lambda>s. probe_hash_tbl_count_common bits jt ?tbl a s a2 b2 a3 b3"
  let ?R = "a_count div b_count + 1"
  from range have bits: "1 < bits" and a0: "0 \<le> a_count" and b0: "0 \<le> b_count"
    and a2: "2 * a_count < 2 ^ (bits - 1)" and b5: "5 * b_count < 2 ^ (bits - 1)"
    and M2: "2 * int ?M < 2 ^ (bits - 1)" and MR: "int ?M * ?R < 2 ^ (bits - 1)"
    by (simp_all add: sizes_in_range_def)
  have M: "length (all_matches ?tbl a (nat a_count) a2 b2 a3 b3) = ?M"
    by (rule length_all_matches)
  have Mlt: "int (length (all_matches ?tbl a (nat a_count) a2 b2 a3 b3)) < 2 ^ (bits - 1)"
    unfolding M using M2 by linarith
  show c: "?cnt s = int (length (all_matches ?tbl a (nat s) a2 b2 a3 b3))"
    if "s \<le> a_count" for s
    using bits Mlt that by (intro counter_in_range) simp_all
  show le: "?cnt s \<le> int ?M" if "s \<le> a_count" for s
  proof -
    from that have "nat s \<le> nat a_count" by simp
    from count_mono [OF this, of ?tbl a a2 b2 a3 b3] show ?thesis
      by (simp add: c [OF that] M)
  qed
  have R0: "0 \<le> ?R" using quotient_nonneg [OF a0 b0] by simp
  show "estimator_in_range bits ?cnt a_count b_count"
    unfolding estimator_in_range_def
  proof (intro conjI allI impI)
    fix s assume s: "0 \<le> s \<and> s \<le> a_count"
    then show "0 \<le> ?cnt s" by (simp add: c)
    from s le have "?cnt s * ?R \<le> int ?M * ?R" using R0 by (intro mult_right_mono) simp_all
    with MR show "?cnt s * ?R < 2 ^ (bits - 1)" by linarith
  qed (use bits a0 b0 a2 b5 in simp_all)
qed

text \<open>The estimator of a join whose sizes are in range.\<close>

lemma GenericJoinHash_estimates:
  assumes rt: "runtime_ok dev" and nz: "0 < b_count \<or> a_count = 0"
    and range: "sizes_in_range bits a_count b_count
        (length (matching_pairs a (nat a_count) b (nat b_count) a2 b2 a3 b3))"
  shows "\<exists>n tr.
      estimate_scan_size bits dev cudaSuccess
        (\<lambda>s. probe_hash_tbl_count_common bits jt (build_hash_tbl b b_count) a s a2 b2 a3 b3)
        a_count b_count tr0 = Some (Est_done n tr) \<and>
      estimator_spec
        (\<lambda>s. probe_hash_tbl_count_common bits jt (build_hash_tbl b b_count) a s a2 b2 a3 b3)
        a_count b_count = Some n \<and>
      counts_only tr0 tr \<and>
      (n = 0 \<longleftrightarrow> matching_pairs a (nat a_count) b (nat b_count) a2 b2 a3 b3 = []) \<and>
      (n = 0 \<longrightarrow> last tr = Launch_count a_count) \<and> 0 \<le> n"
proof -
  let ?tbl = "build_hash_tbl b b_count"
  let ?M = "length (matching_pairs a (nat a_count) b (nat b_count) a2 b2 a3 b3)"
  let ?cnt = "\<lambda>s. probe_hash_tbl_count_common bits jt ?tbl a s a2 b2 a3 b3"
  from range have a0: "0 \<le> a_count" and b0: "0 \<le> b_count"
    by (simp_all add: sizes_in_range_def)
  have M: "length (all_matches ?tbl a (nat a_count) a2 b2 a3 b3) = ?M"
    by (rule length_all_matches)
  note c = counting_probe_in_range(2) [OF range, of _ jt]
  note le = counting_probe_in_range(3) [OF range, of _ jt]
  from estimate_scan_size_refines [OF rt counting_probe_in_range(1) [OF range] nz, of jt tr0]
  obtain n tr where est: "estimate_scan_size bits dev cudaSuccess ?cnt a_count b_count tr0 =
      Some (Est_done n tr)" and tr: "counts_only tr0 tr"
    and full: "n = 0 \<longrightarrow> last tr = Launch_count a_count"
    and spec: "estimator_spec ?cnt a_count b_count = Some n" and n: "0 \<le> n"
    by blast
  have mono: "?cnt s \<le> ?cnt a_count" if "s \<le> a_count" for s
    using le [OF that] c [of a_count] by (simp add: M)
  from estimator_spec_zero_iff [OF spec n a0 b0 mono]
  have "n = 0 \<longleftrightarrow> ?cnt a_count = 0" .
  then have "n = 0 \<longleftrightarrow> matching_pairs a (nat a_count) b (nat b_count) a2 b2 a3 b3 = []"
    by (simp add: c M)
  with est spec tr full n show ?thesis by blast
qed

text \<open>Without matches, and unless line 126 divides by zero, the call returns success
  right after the estimator, whose last counting probe has sampled the whole left column;
  \<open>joined_output\<close> is as on entry.\<close>

lemma no_matches_short_circuit:
  assumes rt: "runtime_ok dev" and la: "launches_ok dev" and nz: "0 < b_count \<or> a_count = 0"
    and none: "matching_pairs a (nat a_count) b (nat b_count) a2 b2 a3 b3 = []"
    and range: "sizes_in_range bits a_count b_count 0"
  shows "\<exists>tr. GenericJoinHash bits dev jt out0 a a_count b b_count a2 b2 a3 b3 flip =
        Some (Inr \<lparr>status = cudaSuccess, joined_out = out0, trace = tr\<rparr>) \<and>
      estimator_spec
        (\<lambda>s. probe_hash_tbl_count_common bits jt (build_hash_tbl b b_count) a s a2 b2 a3 b3)
        a_count b_count = Some 0 \<and>
      last tr = Launch_count a_count \<and> \<not> list_ex is_probe_launch tr"
proof -
  let ?tr1 = "[New_hash_tbl (hash_tbl_size bits b_count), Launch_build b_count]"
  from range none have "sizes_in_range bits a_count b_count
        (length (matching_pairs a (nat a_count) b (nat b_count) a2 b2 a3 b3))"
    by simp
  from GenericJoinHash_estimates [OF rt nz this, of jt ?tr1] none
  obtain tr where
    est: "estimate_scan_size bits dev cudaSuccess
        (\<lambda>s. probe_hash_tbl_count_common bits jt (build_hash_tbl b b_count) a s a2 b2 a3 b3)
        a_count b_count ?tr1 = Some (Est_done 0 tr)"
    and spec: "estimator_spec
        (\<lambda>s. probe_hash_tbl_count_common bits jt (build_hash_tbl b b_count) a s a2 b2 a3 b3)
        a_count b_count = Some 0"
    and tr: "counts_only ?tr1 tr" and full: "last tr = Launch_count a_count"
    by auto
  note red = GenericJoinHash_after_build [OF first_failure_ok [OF rt]
      la [unfolded launches_ok_def, THEN conjunct1]
      la [unfolded launches_ok_def, THEN conjunct2],
      of bits jt out0 a a_count b b_count a2 b2 a3 b3 flip]
  have "GenericJoinHash bits dev jt out0 a a_count b b_count a2 b2 a3 b3 flip =
        Some (Inr \<lparr>status = cudaSuccess, joined_out = out0, trace = tr\<rparr>)"
    by (simp only: red est) simp
  moreover from tr have "\<not> list_ex is_probe_launch tr"
    by (auto simp: counts_only_def is_probe_launch_def dest: counts_no_probe)
  ultimately show ?thesis using spec full by blast
qed

section \<open>The pairs a returning call delivers\<close>

lemma fair_length: "fair_arrival dev \<Longrightarrow> length (arrival dev k xs) = length xs"
  by (metis fair_arrival_def mset_eq_length)

text \<open>The array that line 202 allocates and line 203 fills, when its length is in range
  and the buffer holds every match.\<close>

lemma transposed_output:
  assumes fair: "fair_arrival dev" and range: "output_in_range bits (length ms)"
    and sz: "int (length ms) \<le> sz"
  shows "pairs_to_decoupled bits (mem_t dev (to_promoted bits (2 * int (length ms))))
           (int (length ms)) (take (nat sz) (arrival dev k ms)) flip =
         Some (if flip then map second (arrival dev k ms) @ map first (arrival dev k ms)
               else map first (arrival dev k ms) @ map second (arrival dev k ms))"
proof -
  from range have bits: "0 < bits" "bits \<le> 64" and M2: "2 * int (length ms) < 2 ^ (bits - 1)"
    by (simp_all add: output_in_range_def)
  have l: "length (arrival dev k ms) = length ms" using fair by (rule fair_length)
  then have t: "take (nat sz) (arrival dev k ms) = arrival dev k ms" using sz by simp
  have p: "to_promoted bits (2 * int (length ms)) = 2 * int (length ms)"
    using M2 by (intro to_promoted_small) simp_all
  have "to_size_t (2 * int (length ms)) = 2 * int (length ms)"
    using bits(2) M2 by (intro size_t_holds_size_type) simp_all
  then have len: "length (mem_t dev (to_promoted bits (2 * int (length ms)))) =
      2 * nat (int (length ms))"
    by (simp add: length_mem_t p)
  have "2 * int (length ms) \<le> 2 ^ (promoted bits - 1)"
    using M2 promoted_range [of bits] by linarith
  from pairs_to_decoupled_eq [OF _ _ len this, of "arrival dev k ms" flip] l
  show ?thesis unfolding t by simp
qed

lemma matching_pairs_product:
  "matching_pairs a m b n a2 b2 a3 b3 =
     filter (\<lambda>(i, j). a i = b j \<and> component_match a2 b2 i j \<and> component_match a3 b3 i j)
       (List.product [0..<m] [0..<n])"
  by (simp add: matching_pairs_def List.product_concat_map filter_concat filter_map comp_def)

lemma distinct_matching_pairs: "distinct (matching_pairs a m b n a2 b2 a3 b3)"
  by (simp add: matching_pairs_product distinct_product)

lemma mset_matching_pairs_swap:
  "mset (map prod.swap (matching_pairs b n a m b2 a2 b3 a3)) =
     mset (matching_pairs a m b n a2 b2 a3 b3)"
proof -
  have "distinct (map prod.swap (matching_pairs b n a m b2 a2 b3 a3))"
    by (simp add: distinct_map distinct_matching_pairs)
  moreover have "set (map prod.swap (matching_pairs b n a m b2 a2 b3 a3)) =
      set (matching_pairs a m b n a2 b2 a3 b3)"
    by (simp add: matching_pairs_swap [of b n a m b2 a2 b3 a3] image_image)
  ultimately show ?thesis
    using distinct_matching_pairs [of a m b n a2 b2 a3 b3]
    by (simp only: set_eq_iff_mset_eq_distinct)
qed

lemma length_matching_pairs_swap:
  "length (matching_pairs b n a m b2 a2 b3 a3) = length (matching_pairs a m b n a2 b2 a3 b3)"
  using mset_eq_length [OF mset_matching_pairs_swap [of b n a m b2 a2 b3 a3]]
  by simp

lemma mset_result_pairs:
  assumes "mset buf = mset (all_matches (build_hash_tbl b b_count) a m a2 b2 a3 b3)"
  shows "mset (result_pairs (map first buf @ map second buf)) =
           mset (matching_pairs a m b (nat b_count) a2 b2 a3 b3)"
    and "mset (result_pairs (map second buf @ map first buf)) =
           mset (map prod.swap (matching_pairs a m b (nat b_count) a2 b2 a3 b3))"
proof -
  have "mset (map (\<lambda>p. (first p, second p)) buf) =
      mset (map (\<lambda>p. (first p, second p))
        (all_matches (build_hash_tbl b b_count) a m a2 b2 a3 b3))"
    using assms by (simp only: mset_map)
  then show "mset (result_pairs (map first buf @ map second buf)) =
           mset (matching_pairs a m b (nat b_count) a2 b2 a3 b3)"
    by (simp only: result_pairs_transposed all_matches_pairs)
  have "mset (map (\<lambda>p. (second p, first p)) buf) =
      mset (map (\<lambda>p. (second p, first p))
        (all_matches (build_hash_tbl b b_count) a m a2 b2 a3 b3))"
    using assms by (simp only: mset_map)
  moreover have "map (\<lambda>p. (second p, first p)) xs =
      map prod.swap (map (\<lambda>p. (first p, second p)) xs)" for xs :: "join_pair list"
    by simp
  ultimately show "mset (result_pairs (map second buf @ map first buf)) =
           mset (map prod.swap (matching_pairs a m b (nat b_count) a2 b2 a3 b3))"
    by (simp only: result_pairs_transposed all_matches_pairs)
qed

text \<open>What a returning call leaves in \<open>joined_output\<close>, for any device that delivers
  every match once, when the length of the output is in range.\<close>

lemma GenericJoinHash_output:
  assumes fair: "fair_arrival dev"
    and range: "output_in_range bits
        (length (matching_pairs a (nat a_count) b (nat b_count) a2 b2 a3 b3))"
    and ret: "GenericJoinHash bits dev jt out0 a a_count b b_count a2 b2 a3 b3 flip =
      Some (Inr r)"
  shows "(\<not> list_ex is_probe_launch (trace r) \<and> joined_out r = out0) \<or>
    (list_ex is_probe_launch (trace r) \<and>
     last (trace r) =
       Transpose (int (length (matching_pairs a (nat a_count) b (nat b_count) a2 b2 a3 b3)))
         flip \<and>
     length (joined_out r) =
       2 * length (matching_pairs a (nat a_count) b (nat b_count) a2 b2 a3 b3) \<and>
     mset (result_pairs (joined_out r)) =
       mset (if flip
             then map prod.swap (matching_pairs a (nat a_count) b (nat b_count) a2 b2 a3 b3)
             else matching_pairs a (nat a_count) b (nat b_count) a2 b2 a3 b3))"
proof -
  let ?ms = "all_matches (build_hash_tbl b b_count) a (nat a_count) a2 b2 a3 b3"
  let ?mp = "matching_pairs a (nat a_count) b (nat b_count) a2 b2 a3 b3"
  have M: "length ?ms = length ?mp" by (rule length_all_matches)
  from range have bits: "0 < bits" and M2: "2 * int (length ?ms) < 2 ^ (bits - 1)"
    by (simp_all add: output_in_range_def M)
  from M2 have "int (length ?ms) < 2 ^ (bits - 1)" by linarith
  with bits have h: "to_size_type bits (int (length ?ms)) = int (length ?ms)"
    by (intro to_size_type_id) (simp_all del: of_nat_less_numeral_power_cancel_iff)
  from GenericJoinHash_returns [OF ret, unfolded h]
  consider (early) "joined_out r = out0" "\<not> list_ex is_probe_launch (trace r)"
    | (late) k sz init where "int (length ?ms) \<le> sz"
        "pairs_to_decoupled bits (mem_t dev (to_promoted bits (2 * int (length ?ms))))
           (int (length ?ms)) (take (nat sz) (arrival dev k ?ms)) flip = Some (joined_out r)"
        "trace r = init @ [Launch_probe sz, Transpose (int (length ?ms)) flip]"
    by blast
  then show ?thesis
  proof cases
    case early
    then show ?thesis by simp
  next
    case late
    from range have range': "output_in_range bits (length ?ms)" by (simp add: M)
    have out: "joined_out r =
        (if flip then map second (arrival dev k ?ms) @ map first (arrival dev k ?ms)
         else map first (arrival dev k ?ms) @ map second (arrival dev k ?ms))"
      using late(2) unfolding transposed_output [OF fair range' late(1)] by simp
    have perm: "mset (arrival dev k ?ms) = mset ?ms"
      using fair by (simp add: fair_arrival_def)
    have len: "length (arrival dev k ?ms) = length ?ms" using fair by (rule fair_length)
    have "list_ex is_probe_launch (trace r)"
      by (simp add: late(3) is_probe_launch_def)
    moreover have "last (trace r) = Transpose (int (length ?mp)) flip"
      by (simp add: late(3) M)
    moreover have "length (joined_out r) = 2 * length ?mp"
      using len by (simp add: out M)
    moreover have "mset (result_pairs (joined_out r)) =
       mset (if flip then map prod.swap ?mp else ?mp)"
      using mset_result_pairs [OF perm] by (simp add: out)
    ultimately show ?thesis by blast
  qed
qed

lemma LeftJoinHash_output:
  assumes "fair_arrival dev"
    and "output_in_range bits
        (length (matching_pairs a (nat a_count) b (nat b_count) a2 b2 a3 b3))"
    and "LeftJoinHash bits dev out0 a a_count b b_count a2 b2 a3 b3 = Some (Inr r)"
  shows "(\<not> list_ex is_probe_launch (trace r) \<and> joined_out r = out0) \<or>
    (list_ex is_probe_launch (trace r) \<and>
     length (joined_out r) =
       2 * length (matching_pairs a (nat a_count) b (nat b_count) a2 b2 a3 b3) \<and>
     mset (result_pairs (joined_out r)) =
       mset (matching_pairs a (nat a_count) b (nat b_count) a2 b2 a3 b3))"
  using GenericJoinHash_output [OF assms(1,2) assms(3) [unfolded LeftJoinHash_def]]
  by auto

lemma InnerJoinHash_output:
  assumes "fair_arrival dev"
    and "output_in_range bits
        (length (matching_pairs a (nat a_count) b (nat b_count) a2 b2 a3 b3))"
    and "InnerJoinHash bits dev out0 a a_count b b_count a2 b2 a3 b3 = Some (Inr r)"
  shows "(\<not> list_ex is_probe_launch (trace r) \<and> joined_out r = out0) \<or>
    (list_ex is_probe_launch (trace r) \<and>
     length (joined_out r) =
       2 * length (matching_pairs a (nat a_count) b (nat b_count) a2 b2 a3 b3) \<and>
     mset (result_pairs (joined_out r)) =
       mset (matching_pairs a (nat a_count) b (nat b_count) a2 b2 a3 b3))"
proof (cases "a_count < b_count")
  case True
  with assms(3) have "GenericJoinHash bits dev INNER_JOIN out0 b b_count a a_count b2 a2 b3 a3
      True = Some (Inr r)"
    by (simp add: InnerJoinHash_def)
  moreover from assms(2) have "output_in_range bits
        (length (matching_pairs b (nat b_count) a (nat a_count) b2 a2 b3 a3))"
    by (simp only: length_matching_pairs_swap [of b "nat b_count" a "nat a_count" b2 a2 b3 a3])
  ultimately show ?thesis
    using GenericJoinHash_output [OF assms(1), of bits b b_count a a_count b2 a2 b3 a3
        INNER_JOIN out0 True r]
    unfolding if_True mset_matching_pairs_swap [of b "nat b_count" a "nat a_count" b2 a2 b3 a3]
        length_matching_pairs_swap [of b "nat b_count" a "nat a_count" b2 a2 b3 a3]
    by blast
next
  case False
  with assms(3) have "GenericJoinHash bits dev INNER_JOIN out0 a a_count b b_count a2 b2 a3 b3
      False = Some (Inr r)"
    by (simp add: InnerJoinHash_def)
  from GenericJoinHash_output [OF assms(1,2) this] show ?thesis by auto
qed

lemma result_pairs_Nil: "result_pairs [] = []"
  by (simp add: result_pairs_def)


lemma matching_pairs_empty_right: "matching_pairs a m b 0 a2 b2 a3 b3 = []"
  by (simp add: matching_pairs_def)

text \<open>The materializing probe of a join with \<open>M\<close> matching pairs, \<open>2 * M\<close> in range, on a
  device without failures: it runs with the estimate \<open>n\<close> and its doubles until \<open>M\<close> pairs
  fit, and the last buffer is transposed.\<close>

lemma GenericJoinHash_probes:
  assumes rt: "runtime_ok dev" and la: "launches_ok dev" and fair: "fair_arrival dev"
    and range: "output_in_range bits
        (length (matching_pairs a (nat a_count) b (nat b_count) a2 b2 a3 b3))"
    and est: "estimate_scan_size bits dev cudaSuccess
        (\<lambda>s. probe_hash_tbl_count_common bits jt (build_hash_tbl b b_count) a s a2 b2 a3 b3)
        a_count b_count [New_hash_tbl (hash_tbl_size bits b_count), Launch_build b_count] =
        Some (Est_done n tr)"
    and pos: "0 < n"
  shows "GenericJoinHash bits dev jt out0 a a_count b b_count a2 b2 a3 b3 flip =
      Some (Inr
        \<lparr>status = synchronize dev
            (doublings n (int (length (matching_pairs a (nat a_count) b (nat b_count)
               a2 b2 a3 b3)))),
         joined_out =
           (if flip
            then map second (arrival dev
                (doublings n (int (length (matching_pairs a (nat a_count) b (nat b_count)
                   a2 b2 a3 b3))))
                (all_matches (build_hash_tbl b b_count) a (nat a_count) a2 b2 a3 b3)) @
              map first (arrival dev
                (doublings n (int (length (matching_pairs a (nat a_count) b (nat b_count)
                   a2 b2 a3 b3))))
                (all_matches (build_hash_tbl b b_count) a (nat a_count) a2 b2 a3 b3))
            else map first (arrival dev
                (doublings n (int (length (matching_pairs a (nat a_count) b (nat b_count)
                   a2 b2 a3 b3))))
                (all_matches (build_hash_tbl b b_count) a (nat a_count) a2 b2 a3 b3)) @
              map second (arrival dev
                (doublings n (int (length (matching_pairs a (nat a_count) b (nat b_count)
                   a2 b2 a3 b3))))
                (all_matches (build_hash_tbl b b_count) a (nat a_count) a2 b2 a3 b3))),
         trace = tr @
            retries n (doublings n (int (length (matching_pairs a (nat a_count) b
               (nat b_count) a2 b2 a3 b3)))) @
            [Launch_probe (n * 2 ^ doublings n (int (length (matching_pairs a (nat a_count) b
                (nat b_count) a2 b2 a3 b3)))),
             Transpose (int (length (matching_pairs a (nat a_count) b (nat b_count)
                a2 b2 a3 b3))) flip]\<rparr>)"
proof -
  let ?ms = "all_matches (build_hash_tbl b b_count) a (nat a_count) a2 b2 a3 b3"
  let ?M = "length (matching_pairs a (nat a_count) b (nat b_count) a2 b2 a3 b3)"
  let ?d = "doublings n (int ?M)"
  have M: "length ?ms = ?M" by (rule length_all_matches)
  from range have bits: "0 < bits" and M2: "2 * int ?M < 2 ^ (bits - 1)"
    by (simp_all add: output_in_range_def)
  from range have range': "output_in_range bits (length ?ms)" by (simp add: M)
  from M2 have "int ?M < 2 ^ (bits - 1)" by linarith
  with bits have hM: "to_size_type bits (int (length ?ms)) = int ?M"
    unfolding M by (intro to_size_type_id) (simp_all del: of_nat_less_numeral_power_cancel_iff)
  define probe where "probe = (\<lambda>k. probe_hash_tbl bits dev k jt (build_hash_tbl b b_count) a
      a_count a2 b2 a3 b3)"
  have h: "\<forall>k s. snd (probe k s) = int ?M" by (simp add: probe_def probe_hash_tbl_def hM)
  have f: "fst (probe k s) = take (nat s) (arrival dev k ?ms)" for k s
    by (simp add: probe_def probe_hash_tbl_def)
  from M2 have M2': "2 * int ?M \<le> 2 ^ (bits - 1)" by simp
  note probe_loop_runs [OF rt bits M2' pos h, of 0 tr, unfolded f]
  then have pl: "probe_loop bits dev
        (\<lambda>k. probe_hash_tbl bits dev k jt (build_hash_tbl b b_count) a a_count a2 b2 a3 b3)
        0 n tr =
      Some (Probe_done (synchronize dev ?d) (int ?M)
        (take (nat (n * 2 ^ ?d)) (arrival dev ?d ?ms))
        (tr @ retries n ?d @ [Launch_probe (n * 2 ^ ?d)]))"
    unfolding probe_def by (simp only: add_0)
  have enough: "int (length ?ms) \<le> n * 2 ^ ?d"
    unfolding M using pos by (rule doublings_enough)
  note tp = transposed_output [OF fair range' enough, of ?d flip, unfolded M]
  note red = GenericJoinHash_after_build [OF first_failure_ok [OF rt]
      la [unfolded launches_ok_def, THEN conjunct1]
      la [unfolded launches_ok_def, THEN conjunct2],
      of bits jt out0 a a_count b b_count a2 b2 a3 b3 flip]
  from pos have nz: "n \<noteq> 0" by simp
  show ?thesis
    by (simp only: red est pl tp estimate.case option.case probed.case nz if_False
        first_failure_ok [OF rt] append_assoc append.simps)
qed

section \<open>Checked launches, empty inputs, completeness\<close>

lemma to_promoted_zero: "to_promoted bits 0 = 0"
  by (simp add: to_promoted_def to_size_type_zero promoted_def)

lemma estimate_scan_size_empty_right:
  "0 < a_count \<Longrightarrow>
   estimate_scan_size bits dev error counter a_count 0 tr = Some (Est_abandon Division_by_zero)"
  by (simp add: estimate_scan_size_def to_promoted_zero)

text \<open>The two launches whose error state is read (lines 105-107 and 112-114): an error
  is returned as it is, and nothing is launched after it.\<close>

lemma GenericJoinHash_checked_launches:
  assumes ret: "GenericJoinHash bits dev jt out0 a a_count b b_count a2 b2 a3 b3 flip =
      Some (Inr r)"
  shows "first_failure dev [Malloc_joined_idx, MemsetAsync_joined_idx] 0 = None \<and>
    (if last_error dev Prefetch_hash_tbl 0 \<noteq> cudaSuccess
     then r = \<lparr>status = last_error dev Prefetch_hash_tbl 0, joined_out = out0,
            trace = [New_hash_tbl (hash_tbl_size bits b_count)]\<rparr>
     else if last_error dev Build_hash_tbl 0 \<noteq> cudaSuccess
     then r = \<lparr>status = last_error dev Build_hash_tbl 0, joined_out = out0,
            trace = [New_hash_tbl (hash_tbl_size bits b_count), Launch_build b_count]\<rparr>
     else True)"
proof -
  have ff: "first_failure dev [Malloc_joined_idx, MemsetAsync_joined_idx] 0 = None"
  proof (cases "first_failure dev [Malloc_joined_idx, MemsetAsync_joined_idx] 0")
    case (Some e)
    with ret show ?thesis unfolding GenericJoinHash_def by (simp only: option.case) simp
  qed simp
  show ?thesis
  proof (cases "last_error dev Prefetch_hash_tbl 0 = cudaSuccess")
    case False
    with ret show ?thesis
      unfolding GenericJoinHash_def Let_def ff option.case by simp
  next
    case pre: True
    show ?thesis
    proof (cases "last_error dev Build_hash_tbl 0 = cudaSuccess")
      case False
      with ret pre show ?thesis
        unfolding GenericJoinHash_def Let_def ff option.case by simp
    next
      case True
      with pre ff show ?thesis by simp
    qed
  qed
qed

lemma GenericJoinHash_empty_right:
  assumes "0 < a_count"
    and ret: "GenericJoinHash bits dev jt out0 a a_count b 0 a2 b2 a3 b3 flip = Some (Inr r)"
  shows "status r \<noteq> cudaSuccess \<and> joined_out r = out0"
proof (cases "last_error dev Prefetch_hash_tbl 0 = cudaSuccess \<and>
              last_error dev Build_hash_tbl 0 = cudaSuccess")
  case True
  from GenericJoinHash_checked_launches [OF ret]
  have ff: "first_failure dev [Malloc_joined_idx, MemsetAsync_joined_idx] 0 = None" by simp
  from True ret show ?thesis
    unfolding GenericJoinHash_after_build [OF ff True [THEN conjunct1] True [THEN conjunct2]]
      estimate_scan_size_empty_right [OF assms(1)]
    by simp
next
  case False
  with GenericJoinHash_checked_launches [OF ret] show ?thesis
    by (auto split: if_splits)
qed

text \<open>A join with matches whose sizes are in range, on a device without failures that
  delivers every match once: the call returns, having run the materializing probe, and
  the array it returns holds every matching pair once.\<close>

lemma GenericJoinHash_with_matches:
  assumes rt: "runtime_ok dev" and la: "launches_ok dev" and fair: "fair_arrival dev"
    and range: "sizes_in_range bits a_count b_count
        (length (matching_pairs a (nat a_count) b (nat b_count) a2 b2 a3 b3))"
    and ne: "matching_pairs a (nat a_count) b (nat b_count) a2 b2 a3 b3 \<noteq> []"
  shows "\<exists>r. GenericJoinHash bits dev jt out0 a a_count b b_count a2 b2 a3 b3 flip =
        Some (Inr r) \<and>
      list_ex is_probe_launch (trace r) \<and>
      length (joined_out r) =
        2 * length (matching_pairs a (nat a_count) b (nat b_count) a2 b2 a3 b3) \<and>
      mset (result_pairs (joined_out r)) =
        mset (if flip
              then map prod.swap (matching_pairs a (nat a_count) b (nat b_count) a2 b2 a3 b3)
              else matching_pairs a (nat a_count) b (nat b_count) a2 b2 a3 b3)"
proof -
  let ?tr1 = "[New_hash_tbl (hash_tbl_size bits b_count), Launch_build b_count]"
  have "0 < b_count"
  proof (rule ccontr)
    assume "\<not> 0 < b_count"
    then have "nat b_count = 0" by simp
    with ne matching_pairs_empty_right [of a "nat a_count" b a2 b2 a3 b3] show False by simp
  qed
  then have nz: "0 < b_count \<or> a_count = 0" by simp
  from GenericJoinHash_estimates [OF rt nz range, of jt ?tr1] ne
  obtain n tr where
    est: "estimate_scan_size bits dev cudaSuccess
        (\<lambda>s. probe_hash_tbl_count_common bits jt (build_hash_tbl b b_count) a s a2 b2 a3 b3)
        a_count b_count ?tr1 = Some (Est_done n tr)"
    and pos: "0 < n"
    by force
  note orange = output_range_of_sizes [OF range]
  note ret = GenericJoinHash_probes [OF rt la fair orange est pos, of out0 flip]
  then obtain r where r: "GenericJoinHash bits dev jt out0 a a_count b b_count a2 b2 a3 b3
      flip = Some (Inr r)"
    and tr: "\<exists>xs h. trace r = xs @ [Launch_probe h, Transpose
        (int (length (matching_pairs a (nat a_count) b (nat b_count) a2 b2 a3 b3))) flip]"
    by (metis append_assoc join_return.select_convs(3))
  from tr have "list_ex is_probe_launch (trace r)"
    by (auto simp: is_probe_launch_def)
  with GenericJoinHash_output [OF fair orange r] r show ?thesis by blast
qed

text \<open>On a device without failures, unless line 126 divides by zero and while the sizes
  are in range, the join returns every matching pair exactly once, whichever column is
  the build side, and the inner join of the swapped inputs returns the swapped pairs.\<close>

lemma GenericJoinHash_complete:
  assumes "runtime_ok dev" and "launches_ok dev" and "fair_arrival dev"
    and "0 < b_count \<or> a_count = 0"
    and "sizes_in_range bits a_count b_count
        (length (matching_pairs a (nat a_count) b (nat b_count) a2 b2 a3 b3))"
  shows "\<exists>r. GenericJoinHash bits dev jt [] a a_count b b_count a2 b2 a3 b3 flip =
        Some (Inr r) \<and>
      mset (result_pairs (joined_out r)) =
        mset (if flip
              then map prod.swap (matching_pairs a (nat a_count) b (nat b_count) a2 b2 a3 b3)
              else matching_pairs a (nat a_count) b (nat b_count) a2 b2 a3 b3)"
proof (cases "matching_pairs a (nat a_count) b (nat b_count) a2 b2 a3 b3 = []")
  case True
  with assms(5) have "sizes_in_range bits a_count b_count 0" by simp
  from no_matches_short_circuit [OF assms(1,2,4) True this, of jt "[]" flip] True
  show ?thesis by (auto simp: result_pairs_Nil)
next
  case False
  from GenericJoinHash_with_matches [OF assms(1-3,5) False, of jt "[]" flip]
  show ?thesis by blast
qed

lemma InnerJoinHash_complete:
  assumes "runtime_ok dev" and "launches_ok dev" and "fair_arrival dev"
    and "(0 < a_count \<and> 0 < b_count) \<or> (a_count = 0 \<and> b_count = 0)"
    and "sizes_in_range bits a_count b_count
        (length (matching_pairs a (nat a_count) b (nat b_count) a2 b2 a3 b3))"
    and "sizes_in_range bits b_count a_count
        (length (matching_pairs a (nat a_count) b (nat b_count) a2 b2 a3 b3))"
  shows "\<exists>r r'. InnerJoinHash bits dev [] a a_count b b_count a2 b2 a3 b3 = Some (Inr r) \<and>
      InnerJoinHash bits dev [] b b_count a a_count b2 a2 b3 a3 = Some (Inr r') \<and>
      mset (result_pairs (joined_out r)) =
        mset (matching_pairs a (nat a_count) b (nat b_count) a2 b2 a3 b3) \<and>
      mset (result_pairs (joined_out r')) = mset (map prod.swap (result_pairs (joined_out r)))"
proof -
  have one: "\<exists>r. InnerJoinHash bits dev [] a a_count b b_count a2 b2 a3 b3 = Some (Inr r) \<and>
      mset (result_pairs (joined_out r)) =
        mset (matching_pairs a (nat a_count) b (nat b_count) a2 b2 a3 b3)"
    if "(0 < a_count \<and> 0 < b_count) \<or> (a_count = 0 \<and> b_count = 0)"
      and "sizes_in_range bits a_count b_count
        (length (matching_pairs a (nat a_count) b (nat b_count) a2 b2 a3 b3))"
      and "sizes_in_range bits b_count a_count
        (length (matching_pairs a (nat a_count) b (nat b_count) a2 b2 a3 b3))"
    for a b :: "nat \<Rightarrow> 'a" and a_count b_count and a2 b2 :: "(nat \<Rightarrow> 'b) option"
      and a3 b3 :: "(nat \<Rightarrow> 'c) option"
  proof (cases "a_count < b_count")
    case True
    with that(1) have nz: "0 < a_count \<or> b_count = 0" by auto
    from that(3) have "sizes_in_range bits b_count a_count
        (length (matching_pairs b (nat b_count) a (nat a_count) b2 a2 b3 a3))"
      by (simp only: length_matching_pairs_swap [of b "nat b_count" a "nat a_count" b2 a2 b3 a3])
    from GenericJoinHash_complete [OF assms(1-3) nz this, of INNER_JOIN True] True
    show ?thesis
      by (simp add: InnerJoinHash_def
          mset_matching_pairs_swap [of b "nat b_count" a "nat a_count" b2 a2 b3 a3]
          del: mset_map)
  next
    case False
    with that(1) have "0 < b_count \<or> a_count = 0" by auto
    from GenericJoinHash_complete [OF assms(1-3) this that(2), of INNER_JOIN False] False
    show ?thesis by (simp add: InnerJoinHash_def)
  qed
  from one [OF assms(4-6)] obtain r where
    r: "InnerJoinHash bits dev [] a a_count b b_count a2 b2 a3 b3 = Some (Inr r)"
      "mset (result_pairs (joined_out r)) =
         mset (matching_pairs a (nat a_count) b (nat b_count) a2 b2 a3 b3)"
    by blast
  note sw = length_matching_pairs_swap [of b "nat b_count" a "nat a_count" b2 a2 b3 a3]
  from assms(4) have "(0 < b_count \<and> 0 < a_count) \<or> (b_count = 0 \<and> a_count = 0)" by auto
  from one [OF this assms(6) [folded sw] assms(5) [folded sw]] obtain r' where
    r': "InnerJoinHash bits dev [] b b_count a a_count b2 a2 b3 a3 = Some (Inr r')"
      "mset (result_pairs (joined_out r')) =
         mset (matching_pairs b (nat b_count) a (nat a_count) b2 a2 b3 a3)"
    by blast
  have "mset (map prod.swap (result_pairs (joined_out r))) =
      mset (map prod.swap (matching_pairs a (nat a_count) b (nat b_count) a2 b2 a3 b3))"
    using r(2) by (simp only: mset_map)
  then have "mset (result_pairs (joined_out r')) =
      mset (map prod.swap (result_pairs (joined_out r)))"
    using r'(2) mset_matching_pairs_swap [of a "nat a_count" b "nat b_count" a2 b2 a3 b3]
    by simp
  with r r'(1) show ?thesis by blast
qed

section \<open>Concrete runs\<close>

lemma runtime_ok_quiet: "runtime_ok quiet_device"
  by (simp add: runtime_ok_def quiet_device_def)

lemma launches_ok_quiet: "launches_ok quiet_device"
  by (simp add: launches_ok_def quiet_device_def)

lemma fair_arrival_quiet: "fair_arrival quiet_device"
  by (simp add: fair_arrival_def quiet_device_def)

text \<open>Eleven left rows against two right rows: the estimator samples the first two left
  rows, finds one match and extrapolates to 6; the join has 10 matches, so the first
  materializing probe overflows its buffer and the second, with 12 slots, does not.\<close>

lemma skewed_run:
  "GenericJoinHash 32 quiet_device INNER_JOIN [] skewed_left 11 small_right 2
     no_column no_column no_column no_column False =
   Some (Inr \<lparr>status = cudaSuccess,
     joined_out = [10, 9, 8, 7, 6, 5, 4, 3, 2, 0, 0, 0, 0, 0, 0, 0, 0, 0, 0, 0],
     trace = [New_hash_tbl 4, Launch_build 2, Launch_count 2, Launch_probe 6, Free_buffer,
              Launch_probe 12, Transpose 10 False]\<rparr>)"
  by code_simp

text \<open>Joins on a composite key whose smaller column is the caller's left column: the
  inner join swaps the roles inside and flips the indices back.\<close>

lemma composite_run:
  "InnerJoinHash 32 quiet_device [] small_right 2 skewed_left 11
     zero_column parity_column no_column no_column =
   Some (Inr \<lparr>status = cudaSuccess,
     joined_out = [0, 0, 0, 0, 0, 0, 10, 8, 6, 4, 2, 0],
     trace = [New_hash_tbl 4, Launch_build 2, Launch_count 2, Launch_probe 6,
              Transpose 6 True]\<rparr>)"
  by code_simp


lemma composite_matches:
  "length (matching_pairs small_right 2 skewed_left 11
     zero_column parity_column no_column no_column) = 6"
  by code_simp

text \<open>A left join without matches, into an array that holds two entries on entry.\<close>

lemma stale_run:
  "LeftJoinHash 32 quiet_device [5, 6] skewed_left 2 twos 2
     no_column no_column no_column no_column =
   Some (Inr \<lparr>status = cudaSuccess, joined_out = [5, 6],
     trace = [New_hash_tbl 4, Launch_build 2, Launch_count 2]\<rparr>)"
  by code_simp

lemma skewed_estimate:
  "estimate_scan_size 32 quiet_device cudaSuccess
     (\<lambda>s. probe_hash_tbl_count_common 32 INNER_JOIN (build_hash_tbl small_right 2) skewed_left s
        no_column no_column no_column no_column) 11 2
     [New_hash_tbl (hash_tbl_size 32 2), Launch_build 2] =
     Some (Est_done 6 [New_hash_tbl 4, Launch_build 2, Launch_count 2])"
  by code_simp

lemma skewed_matches:
  "length (matching_pairs skewed_left 11 small_right 2 no_column no_column no_column no_column)
     = 10"
  by code_simp



text \<open>An 8-bit \<open>size_type\<close>: 62 left rows, all but the second with the key of both right
  rows. The estimator samples two rows, finds two matches and extrapolates to 64; the
  join has 122 matches.\<close>

lemma dense_estimate:
  "estimate_scan_size 8 quiet_device cudaSuccess
     (\<lambda>s. probe_hash_tbl_count_common 8 INNER_JOIN (build_hash_tbl ones 2) dense_left s
        no_column no_column no_column no_column) 62 2
     [New_hash_tbl (hash_tbl_size 8 2), Launch_build 2] =
     Some (Est_done 64 [New_hash_tbl 4, Launch_build 2, Launch_count 2])"
  by code_simp

lemma dense_matches:
  "length (matching_pairs dense_left 62 ones 2 no_column no_column no_column no_column) = 122"
  by code_simp

text \<open>Columns of one key: every left row matches every right row. Columns without a
  common key: no match.\<close>

lemma matching_pairs_same_key:
  assumes "\<And>i j. a i = b j"
  shows "length (matching_pairs a m b n None None None None) = m * n"
  by (simp add: matching_pairs_product assms component_match_def)


text \<open>A 32-bit \<open>size_type\<close>: two columns of 32768 rows of one key have \<open>2^30\<close> matching
  pairs. The counter holds that number, and line 202 asks for \<open>2 * 2^30\<close> cells, a
  product that is not a value of \<open>int\<close>.\<close>

lemma big_matches:
  "length (matching_pairs ones 32768 ones 32768 no_column no_column no_column no_column) =
     1073741824"
  by (simp add: no_column_def matching_pairs_same_key ones_def)

lemma big_counter:
  "to_size_type 32 (int (length (all_matches (build_hash_tbl ones 32768) ones (nat 32768)
      no_column no_column no_column no_column))) = 1073741824"
  using length_all_matches [of ones 32768 ones "nat 32768" no_column no_column no_column no_column]
  by (simp add: big_matches to_size_type_def)

lemma big_cells: "to_promoted 32 (2 * 1073741824) = - 2147483648"
  by (simp add: to_promoted_def promoted_def to_size_type_def)

lemma big_estimate:
  "estimate_scan_size 32 quiet_device cudaSuccess
     (\<lambda>s. probe_hash_tbl_count_common 32 jt (build_hash_tbl ones 32768) ones s
        no_column no_column no_column no_column) 32768 32768 tr =
     Some (Est_done 1073741824 (tr @ [Launch_count 32768]))"
proof -
  have "probe_hash_tbl_count_common 32 jt (build_hash_tbl ones 32768) ones 32768
        no_column no_column no_column no_column = 1073741824"
    using big_counter by (simp add: probe_hash_tbl_count_common_def)
  then show ?thesis
    unfolding estimate_scan_size_def
    by (subst estimate_loop_turn)
      (simp_all add: quiet_device_def to_promoted_def promoted_def to_size_type_def)
qed

lemma big_probe:
  "probe_loop 32 quiet_device
     (\<lambda>k. probe_hash_tbl 32 quiet_device k jt (build_hash_tbl ones 32768) ones 32768
        no_column no_column no_column no_column) 0 1073741824 tr =
   Some (Probe_done cudaSuccess 1073741824
     (fst (probe_hash_tbl 32 quiet_device 0 jt (build_hash_tbl ones 32768) ones 32768
        no_column no_column no_column no_column 1073741824))
     (tr @ [Launch_probe 1073741824]))"
proof -
  have "snd (probe_hash_tbl 32 quiet_device 0 jt (build_hash_tbl ones 32768) ones 32768
        no_column no_column no_column no_column 1073741824) = 1073741824"
    using big_counter by (simp add: probe_hash_tbl_def)
  then show ?thesis
    by (subst probe_loop_unfold [OF runtime_ok_quiet]) (simp add: quiet_device_def)
qed

text \<open>On no device does the join of these columns return an array of \<open>2 * 2^30\<close>
  cells.\<close>

lemma big_output:
  assumes "GenericJoinHash 32 dev jt out0 ones 32768 ones 32768
          no_column no_column no_column no_column flip = Some (Inr r)"
  shows "joined_out r = out0 \<or> length (joined_out r) = 18446744071562067968"
proof -
  from GenericJoinHash_returns [OF assms, unfolded big_counter big_cells]
  consider "joined_out r = out0"
    | k sz where "pairs_to_decoupled 32 (mem_t dev (- 2147483648)) 1073741824
        (take (nat sz) (arrival dev k (all_matches (build_hash_tbl ones 32768) ones (nat 32768)
           no_column no_column no_column no_column))) flip = Some (joined_out r)"
    by blast
  then show ?thesis
  proof cases
    case 1
    then show ?thesis by simp
  next
    case 2
    from length_pairs_to_decoupled [OF this] show ?thesis
      by (simp add: length_mem_t to_size_t_def)
  qed
qed




section \<open>The claims\<close>

text \<open>C1 (amended). Every pair \<open>(i, j)\<close> that \<open>LeftJoinHash\<close> or \<open>InnerJoinHash\<close> returns,
  in an output array that was empty on entry, of a join whose \<open>M\<close> matching pairs keep the
  length \<open>2 * M\<close> of the output in the range of \<open>size_type\<close>, names a left row and a right
  row whose keys are equal, in every key column that both sides supply.\<close>

theorem joined_pairs_have_equal_keys:
  assumes "fair_arrival dev"
    and "output_in_range bits
        (length (matching_pairs a (nat a_count) b (nat b_count) a2 b2 a3 b3))"
    and "LeftJoinHash bits dev [] a a_count b b_count a2 b2 a3 b3 = Some (Inr r) \<or>
         InnerJoinHash bits dev [] a a_count b b_count a2 b2 a3 b3 = Some (Inr r)"
    and "(i, j) \<in> set (result_pairs (joined_out r))"
  shows "int i < a_count \<and> int j < b_count \<and> a i = b j \<and> component_match a2 b2 i j \<and>
         component_match a3 b3 i j"
proof -
  from assms(3)
  have "joined_out r = [] \<or>
      mset (result_pairs (joined_out r)) =
        mset (matching_pairs a (nat a_count) b (nat b_count) a2 b2 a3 b3)"
  proof
    assume "LeftJoinHash bits dev [] a a_count b b_count a2 b2 a3 b3 = Some (Inr r)"
    from LeftJoinHash_output [OF assms(1,2) this] show ?thesis by blast
  next
    assume "InnerJoinHash bits dev [] a a_count b b_count a2 b2 a3 b3 = Some (Inr r)"
    from InnerJoinHash_output [OF assms(1,2) this] show ?thesis by blast
  qed
  with assms(4)
  have "(i, j) \<in> set (matching_pairs a (nat a_count) b (nat b_count) a2 b2 a3 b3)"
    by (auto simp: result_pairs_Nil dest: mset_eq_setD)
  then show ?thesis by (auto simp: set_matching_pairs)
qed

theorem joined_pairs_have_equal_keys_witness:
  "fair_arrival quiet_device \<and>
   output_in_range 32 (length (matching_pairs small_right (nat 2) skewed_left (nat 11)
     zero_column parity_column no_column no_column)) \<and>
   InnerJoinHash 32 quiet_device [] small_right 2 skewed_left 11
     zero_column parity_column no_column no_column =
   Some (Inr \<lparr>status = cudaSuccess,
     joined_out = [0, 0, 0, 0, 0, 0, 10, 8, 6, 4, 2, 0],
     trace = [New_hash_tbl 4, Launch_build 2, Launch_count 2, Launch_probe 6,
              Transpose 6 True]\<rparr>) \<and>
   (0, 10) \<in> set (result_pairs [0, 0, 0, 0, 0, 0, 10, 8, 6, 4, 2, 0]) \<and>
   small_right 0 = skewed_left 10 \<and> component_match zero_column parity_column 0 10"
proof -
  have m: "(0, 10) \<in> set (result_pairs (joined_out \<lparr>status = cudaSuccess,
     joined_out = [0, 0, 0, 0, 0, 0, 10, 8, 6, 4, 2, 0],
     trace = [New_hash_tbl 4, Launch_build 2, Launch_count 2, Launch_probe 6,
              Transpose 6 True]\<rparr>))"
    by (simp add: result_pairs_def)
  have o: "output_in_range 32 (length (matching_pairs small_right (nat 2) skewed_left (nat 11)
     zero_column parity_column no_column no_column))"
    by (simp add: composite_matches output_in_range_def)
  from joined_pairs_have_equal_keys [OF fair_arrival_quiet o disjI2 [OF composite_run] m]
  show ?thesis using m o by (simp add: fair_arrival_quiet composite_run)
qed

text \<open>C1 as stated fails for an output array that is not empty on entry: a join without
  matches returns success on the zero-estimate path and leaves the array untouched, so
  the caller gets back the pair \<open>(0, 1)\<close> that it passed in, of rows with the keys 1
  and 2.\<close>

theorem stale_pairs_are_returned:
  "LeftJoinHash 32 quiet_device [0, 1] skewed_left 2 twos 2
     no_column no_column no_column no_column =
   Some (Inr \<lparr>status = cudaSuccess, joined_out = [0, 1],
     trace = [New_hash_tbl 4, Launch_build 2, Launch_count 2]\<rparr>) \<and>
   InnerJoinHash 32 quiet_device [0, 1] skewed_left 2 twos 2
     no_column no_column no_column no_column =
   Some (Inr \<lparr>status = cudaSuccess, joined_out = [0, 1],
     trace = [New_hash_tbl 4, Launch_build 2, Launch_count 2]\<rparr>) \<and>
   (0, 1) \<in> set (result_pairs [0, 1]) \<and> skewed_left 0 = 1 \<and> twos 1 = 2"
proof -
  have "LeftJoinHash 32 quiet_device [0, 1] skewed_left 2 twos 2
     no_column no_column no_column no_column =
   Some (Inr \<lparr>status = cudaSuccess, joined_out = [0, 1],
     trace = [New_hash_tbl 4, Launch_build 2, Launch_count 2]\<rparr>)"
    by code_simp
  moreover have "InnerJoinHash 32 quiet_device [0, 1] skewed_left 2 twos 2
     no_column no_column no_column no_column =
   Some (Inr \<lparr>status = cudaSuccess, joined_out = [0, 1],
     trace = [New_hash_tbl 4, Launch_build 2, Launch_count 2]\<rparr>)"
    by code_simp
  ultimately show ?thesis by (simp add: result_pairs_def skewed_left_def twos_def)
qed

text \<open>C2. The claim fails on the code when exactly one input is empty: the inner join
  of a one-row column with an empty column has no matching pair, and in either order
  \<open>InnerJoinHash\<close> makes the empty column the build side and divides by its row count.\<close>

theorem inner_join_with_empty_side:
  "matching_pairs skewed_left 1 small_right 0 no_column no_column no_column no_column = [] \<and>
   InnerJoinHash 32 quiet_device [] skewed_left 1 small_right 0
     no_column no_column no_column no_column = Some (Inl Division_by_zero) \<and>
   InnerJoinHash 32 quiet_device [] small_right 0 skewed_left 1
     no_column no_column no_column no_column = Some (Inl Division_by_zero)"
proof -
  have "InnerJoinHash 32 quiet_device [] skewed_left 1 small_right 0
     no_column no_column no_column no_column = Some (Inl Division_by_zero)"
    by code_simp
  moreover have "InnerJoinHash 32 quiet_device [] small_right 0 skewed_left 1
     no_column no_column no_column no_column = Some (Inl Division_by_zero)"
    by code_simp
  ultimately show ?thesis by (simp add: matching_pairs_empty_right)
qed

text \<open>C3. The claim fails on the code: with an empty right column and a non-empty left
  column the test of line 124 holds and line 126 divides \<open>a_count\<close> by \<open>b_count = 0\<close>.
  \<open>LeftJoinHash\<close> does not return on a device without failures, and on no device does it
  return success.\<close>

theorem empty_right_column_divides_by_zero:
  "LeftJoinHash 32 quiet_device [] skewed_left 1 small_right 0
     no_column no_column no_column no_column = Some (Inl Division_by_zero) \<and>
   GenericJoinHash 32 quiet_device LEFT_JOIN [] skewed_left 1 small_right 0
     no_column no_column no_column no_column False = Some (Inl Division_by_zero) \<and>
   (\<forall>dev. case LeftJoinHash 32 dev [] skewed_left 1 small_right 0
               no_column no_column no_column no_column of
            None \<Rightarrow> True
          | Some x \<Rightarrow> (case x of Inl y \<Rightarrow> True | Inr r \<Rightarrow> status r \<noteq> cudaSuccess))"
proof -
  have "LeftJoinHash 32 quiet_device [] skewed_left 1 small_right 0
     no_column no_column no_column no_column = Some (Inl Division_by_zero)"
    by code_simp
  moreover have "GenericJoinHash 32 quiet_device LEFT_JOIN [] skewed_left 1 small_right 0
     no_column no_column no_column no_column False = Some (Inl Division_by_zero)"
    by code_simp
  moreover have "case LeftJoinHash 32 dev [] skewed_left 1 small_right 0
               no_column no_column no_column no_column of
            None \<Rightarrow> True
          | Some x \<Rightarrow> (case x of Inl y \<Rightarrow> True | Inr r \<Rightarrow> status r \<noteq> cudaSuccess)" for dev
    using GenericJoinHash_empty_right [of 1 32 dev LEFT_JOIN "[]" skewed_left small_right
        no_column no_column no_column no_column False]
    by (auto simp: LeftJoinHash_def split: option.splits sum.splits)
  ultimately show ?thesis by blast
qed

text \<open>C4. The claim fails on the code for inputs without matches whose right column is
  empty: the estimator reports no estimate, it divides by zero (line 126), whatever the
  width of \<open>size_type\<close> is and whatever the device and the counting probe do.\<close>

theorem no_match_input_without_estimate:
  "matching_pairs skewed_left 3 small_right 0 no_column no_column no_column no_column = [] \<and>
   GenericJoinHash 32 quiet_device INNER_JOIN [] skewed_left 3 small_right 0
     no_column no_column no_column no_column False = Some (Inl Division_by_zero) \<and>
   (\<forall>bits dev error counter tr.
      estimate_scan_size bits dev error counter 3 0 tr = Some (Est_abandon Division_by_zero))"
proof -
  have "GenericJoinHash 32 quiet_device INNER_JOIN [] skewed_left 3 small_right 0
     no_column no_column no_column no_column False = Some (Inl Division_by_zero)"
    by code_simp
  then show ?thesis
    by (simp add: matching_pairs_empty_right estimate_scan_size_empty_right)
qed

text \<open>C5 (amended). Let the \<open>M\<close> matching pairs of a join keep the length \<open>2 * M\<close> of the
  output in the range of \<open>size_type\<close>. Whenever the estimate \<open>n\<close> that the estimator hands
  to the materializing probe is positive and below \<open>M\<close>, the orchestrator runs the probe
  with \<open>n\<close>, \<open>2n\<close>, \<open>4n\<close>, ... slots, freeing the buffer after every attempt whose final
  counter, read after the synchronization, exceeds its capacity, until a buffer holds all
  \<open>M\<close> pairs; it then returns, and the pairs of the returned array, transposed from the
  last buffer alone, are exactly the matching pairs, each once.\<close>

theorem undersized_buffer_is_retried:
  assumes "runtime_ok dev" and "launches_ok dev" and "fair_arrival dev"
    and "output_in_range bits
        (length (matching_pairs a (nat a_count) b (nat b_count) a2 b2 a3 b3))"
    and "estimate_scan_size bits dev cudaSuccess
        (\<lambda>s. probe_hash_tbl_count_common bits jt (build_hash_tbl b b_count) a s a2 b2 a3 b3)
        a_count b_count [New_hash_tbl (hash_tbl_size bits b_count), Launch_build b_count] =
        Some (Est_done n tr)"
    and "0 < n"
    and "n < int (length (matching_pairs a (nat a_count) b (nat b_count) a2 b2 a3 b3))"
  shows "\<exists>r. GenericJoinHash bits dev jt out0 a a_count b b_count a2 b2 a3 b3 flip =
        Some (Inr r) \<and>
      0 < doublings n (int (length (matching_pairs a (nat a_count) b (nat b_count)
            a2 b2 a3 b3))) \<and>
      list_all
        (\<lambda>i. n * 2 ^ i < int (length (matching_pairs a (nat a_count) b (nat b_count)
            a2 b2 a3 b3)))
        [0..<doublings n (int (length (matching_pairs a (nat a_count) b (nat b_count)
            a2 b2 a3 b3)))] \<and>
      int (length (matching_pairs a (nat a_count) b (nat b_count) a2 b2 a3 b3))
        \<le> n * 2 ^ doublings n (int (length (matching_pairs a (nat a_count) b (nat b_count)
            a2 b2 a3 b3))) \<and>
      trace r = tr @
          retries n (doublings n (int (length (matching_pairs a (nat a_count) b (nat b_count)
            a2 b2 a3 b3)))) @
          [Launch_probe
             (n * 2 ^ doublings n (int (length (matching_pairs a (nat a_count) b (nat b_count)
                a2 b2 a3 b3)))),
           Transpose (int (length (matching_pairs a (nat a_count) b (nat b_count)
                a2 b2 a3 b3))) flip] \<and>
      status r = synchronize dev
         (doublings n (int (length (matching_pairs a (nat a_count) b (nat b_count)
            a2 b2 a3 b3)))) \<and>
      length (joined_out r) =
        2 * length (matching_pairs a (nat a_count) b (nat b_count) a2 b2 a3 b3) \<and>
      mset (result_pairs (joined_out r)) =
        mset (if flip
              then map prod.swap (matching_pairs a (nat a_count) b (nat b_count) a2 b2 a3 b3)
              else matching_pairs a (nat a_count) b (nat b_count) a2 b2 a3 b3)"
proof -
  let ?mp = "matching_pairs a (nat a_count) b (nat b_count) a2 b2 a3 b3"
  let ?M = "int (length ?mp)"
  let ?d = "doublings n ?M"
  let ?ms = "all_matches (build_hash_tbl b b_count) a (nat a_count) a2 b2 a3 b3"
  define r where "r = \<lparr>status = synchronize dev ?d,
     joined_out =
       (if flip then map second (arrival dev ?d ?ms) @ map first (arrival dev ?d ?ms)
        else map first (arrival dev ?d ?ms) @ map second (arrival dev ?d ?ms)),
     trace = tr @ retries n ?d @ [Launch_probe (n * 2 ^ ?d), Transpose ?M flip]\<rparr>"
  from GenericJoinHash_probes [OF assms(1-6), of out0 flip]
  have ret: "GenericJoinHash bits dev jt out0 a a_count b b_count a2 b2 a3 b3 flip =
      Some (Inr r)"
    by (simp only: r_def)
  have probe: "list_ex is_probe_launch (trace r)"
    by (simp add: r_def is_probe_launch_def)
  from GenericJoinHash_output [OF assms(3,4) ret] probe
  have out: "length (joined_out r) = 2 * length ?mp"
    "mset (result_pairs (joined_out r)) = mset (if flip then map prod.swap ?mp else ?mp)"
    by blast+
  have d: "0 < ?d" using assms(6,7) by (simp add: doublings_step)
  have under: "list_all (\<lambda>i. n * 2 ^ i < ?M) [0..<?d]"
    by (simp add: list_all_iff doublings_under)
  have enough: "?M \<le> n * 2 ^ ?d" using assms(6) by (rule doublings_enough)
  have "trace r = tr @ retries n ?d @ [Launch_probe (n * 2 ^ ?d), Transpose ?M flip]"
    and "status r = synchronize dev ?d"
    by (simp_all add: r_def)
  with ret d under enough out show ?thesis by blast
qed

theorem undersized_buffer_is_retried_witness:
  "runtime_ok quiet_device \<and> launches_ok quiet_device \<and> fair_arrival quiet_device \<and>
   output_in_range 32 (length (matching_pairs skewed_left (nat 11) small_right (nat 2)
       no_column no_column no_column no_column)) \<and>
   estimate_scan_size 32 quiet_device cudaSuccess
     (\<lambda>s. probe_hash_tbl_count_common 32 INNER_JOIN (build_hash_tbl small_right 2) skewed_left s
        no_column no_column no_column no_column) 11 2
     [New_hash_tbl (hash_tbl_size 32 2), Launch_build 2] =
     Some (Est_done 6 [New_hash_tbl 4, Launch_build 2, Launch_count 2]) \<and>
   (0::int) < 6 \<and>
   6 < int (length (matching_pairs skewed_left (nat 11) small_right (nat 2)
       no_column no_column no_column no_column)) \<and>
   doublings 6 10 = 1 \<and>
   GenericJoinHash 32 quiet_device INNER_JOIN [] skewed_left 11 small_right 2
     no_column no_column no_column no_column False =
   Some (Inr \<lparr>status = cudaSuccess,
     joined_out = [10, 9, 8, 7, 6, 5, 4, 3, 2, 0, 0, 0, 0, 0, 0, 0, 0, 0, 0, 0],
     trace = [New_hash_tbl 4, Launch_build 2, Launch_count 2, Launch_probe 6, Free_buffer,
              Launch_probe 12, Transpose 10 False]\<rparr>) \<and>
   mset (result_pairs [10, 9, 8, 7, 6, 5, 4, 3, 2, 0, 0, 0, 0, 0, 0, 0, 0, 0, 0, 0]) =
     mset (matching_pairs skewed_left 11 small_right 2 no_column no_column no_column no_column)"
proof -
  have o: "output_in_range 32 (length (matching_pairs skewed_left (nat 11) small_right (nat 2)
       no_column no_column no_column no_column))"
    by (simp add: skewed_matches output_in_range_def)
  have p: "(0::int) < 6" by simp
  have u: "6 < int (length (matching_pairs skewed_left (nat 11) small_right (nat 2)
       no_column no_column no_column no_column))"
    by (simp add: skewed_matches)
  have d: "doublings 6 10 = 1" by code_simp
  from undersized_buffer_is_retried [OF runtime_ok_quiet launches_ok_quiet fair_arrival_quiet
      o skewed_estimate p u, of "[]" False]
  show ?thesis
    using u d o
    by (auto simp: skewed_run skewed_estimate runtime_ok_quiet launches_ok_quiet
        fair_arrival_quiet skewed_matches)
qed

text \<open>C5 as stated fails where the doubled capacity leaves the range of \<open>size_type\<close>.
  With an 8-bit \<open>size_type\<close>, 62 left rows and 2 right rows the estimate is 64 and the
  join has 122 matching pairs, all values of \<open>size_type\<close>. Line 197 doubles 64 to -128
  and -128 to 0, and a buffer of no slots is probed again and again: the call does not
  return.\<close>

theorem doubled_capacity_wraps:
  "estimate_scan_size 8 quiet_device cudaSuccess
     (\<lambda>s. probe_hash_tbl_count_common 8 INNER_JOIN (build_hash_tbl ones 2) dense_left s
        no_column no_column no_column no_column) 62 2
     [New_hash_tbl (hash_tbl_size 8 2), Launch_build 2] =
     Some (Est_done 64 [New_hash_tbl 4, Launch_build 2, Launch_count 2]) \<and>
   length (matching_pairs dense_left 62 ones 2 no_column no_column no_column no_column) = 122 \<and>
   to_size_type 8 (64 * 2) = - 128 \<and> to_size_type 8 (- 128 * 2) = 0 \<and>
   GenericJoinHash 8 quiet_device INNER_JOIN [] dense_left 62 ones 2
     no_column no_column no_column no_column False = None"
proof -
  define probe where "probe = (\<lambda>k. probe_hash_tbl 8 quiet_device k INNER_JOIN
      (build_hash_tbl ones 2) dense_left 62 no_column no_column no_column no_column)"
  have "length (all_matches (build_hash_tbl ones 2) dense_left (nat 62)
      no_column no_column no_column no_column) = 122"
    using length_all_matches [of ones 2 dense_left "nat 62" no_column no_column no_column
        no_column]
    by (simp add: dense_matches)
  then have h: "snd (probe k s) = 122" for k s
    by (simp add: probe_def probe_hash_tbl_def to_size_type_def)
  note unfold = probe_loop_unfold [OF runtime_ok_quiet, of 8 probe]
  have s0: "probe_loop 8 quiet_device probe k 0 tr = None" for k tr
    by (rule probe_loop_stuck) (simp_all add: runtime_ok_quiet h)
  have s128: "probe_loop 8 quiet_device probe k (- 128) tr = None" for k tr
    by (subst unfold) (simp add: h to_size_type_def s0)
  have s64: "probe_loop 8 quiet_device probe k 64 tr = None" for k tr
    by (subst unfold) (simp add: h to_size_type_def s128)
  have "GenericJoinHash 8 quiet_device INNER_JOIN [] dense_left 62 ones 2
     no_column no_column no_column no_column False = None"
    unfolding GenericJoinHash_after_build [OF first_failure_ok [OF runtime_ok_quiet]
      launches_ok_quiet [unfolded launches_ok_def, THEN conjunct1]
      launches_ok_quiet [unfolded launches_ok_def, THEN conjunct2]]
      dense_estimate
    by (simp add: s64 [unfolded probe_def])
  then show ?thesis
    by (simp add: dense_estimate dense_matches to_size_type_def)
qed







text \<open>C8. The claim fails on the code for both probes. The error state after the
  counting probe's launch is never read: line 143 tests the variable that line 112
  assigned. The status of the synchronization after the materializing probe (line 189) is
  stored and not tested: on a device whose first synchronization fails, the call goes on
  to read the counter, frees the buffer, probes again, transposes, and returns the second
  synchronization's success; when the first buffer is large enough, it still transposes
  before it returns the error.\<close>

theorem probe_errors_are_not_checked:
  "last_error faulty_device Probe_count 0 = cudaError 1 \<and>
   synchronize faulty_device 0 = cudaError 1 \<and>
   GenericJoinHash 32 faulty_device INNER_JOIN [] skewed_left 11 small_right 2
     no_column no_column no_column no_column False =
   Some (Inr \<lparr>status = cudaSuccess,
     joined_out = [10, 9, 8, 7, 6, 5, 4, 3, 2, 0, 0, 0, 0, 0, 0, 0, 0, 0, 0, 0],
     trace = [New_hash_tbl 4, Launch_build 2, Launch_count 2, Launch_probe 6, Free_buffer,
              Launch_probe 12, Transpose 10 False]\<rparr>) \<and>
   GenericJoinHash 32 faulty_device INNER_JOIN [] small_right 2 small_right 2
     no_column no_column no_column no_column False =
   Some (Inr \<lparr>status = cudaError 1, joined_out = [1, 0, 1, 0],
     trace = [New_hash_tbl 4, Launch_build 2, Launch_count 2, Launch_probe 2,
              Transpose 2 False]\<rparr>)"
proof -
  have "GenericJoinHash 32 faulty_device INNER_JOIN [] small_right 2 small_right 2
     no_column no_column no_column no_column False =
   Some (Inr \<lparr>status = cudaError 1, joined_out = [1, 0, 1, 0],
     trace = [New_hash_tbl 4, Launch_build 2, Launch_count 2, Launch_probe 2,
              Transpose 2 False]\<rparr>)"
    by code_simp
  moreover
  have "GenericJoinHash 32 faulty_device INNER_JOIN [] skewed_left 11 small_right 2
     no_column no_column no_column no_column False =
   Some (Inr \<lparr>status = cudaSuccess,
     joined_out = [10, 9, 8, 7, 6, 5, 4, 3, 2, 0, 0, 0, 0, 0, 0, 0, 0, 0, 0, 0],
     trace = [New_hash_tbl 4, Launch_build 2, Launch_count 2, Launch_probe 6, Free_buffer,
              Launch_probe 12, Transpose 10 False]\<rparr>)"
    by code_simp
  ultimately show ?thesis by (simp add: faulty_device_def)
qed

text \<open>C9 (amended). Line 102 forms the product in \<open>size_t\<close> and converts the quotient
  back to \<open>size_type\<close>. Whenever twice the row count is a value of \<open>size_type\<close> (and the
  product fits \<open>size_t\<close>), the capacity is exactly \<open>b_count * 100 / 50 = 2 * b_count\<close>, and
  that is the capacity with which every returning call of \<open>GenericJoinHash\<close> has created its
  table.\<close>

theorem hash_tbl_size_exact:
  assumes "0 < bits" and "0 \<le> b_count" and "b_count * 100 < 2 ^ 64"
    and "2 * b_count < 2 ^ (bits - 1)"
    and "GenericJoinHash bits dev jt out0 a a_count b b_count a2 b2 a3 b3 flip = Some (Inr r)"
  shows "hash_tbl_size bits b_count = b_count * 100 div DEFAULT_HASH_TBL_OCCUPANCY \<and>
         hash_tbl_size bits b_count = 2 * b_count \<and>
         hd (trace r) = New_hash_tbl (2 * b_count)"
proof -
  have "hash_tbl_size bits b_count = 2 * b_count"
    using assms(1-4) by (rule hash_tbl_size_in_range)
  moreover have "b_count * 100 div DEFAULT_HASH_TBL_OCCUPANCY = 2 * b_count"
    by (simp add: DEFAULT_HASH_TBL_OCCUPANCY_def)
  moreover from GenericJoinHash_returns [OF assms(5)]
  have "hd (trace r) = New_hash_tbl (hash_tbl_size bits b_count)" by auto
  ultimately show ?thesis by simp
qed

theorem hash_tbl_size_exact_witness:
  "(0::nat) < 32 \<and> (0::int) \<le> 2 \<and> (2::int) * 100 < 2 ^ 64 \<and> 2 * (2::int) < 2 ^ (32 - 1) \<and>
   GenericJoinHash 32 quiet_device INNER_JOIN [] skewed_left 11 small_right 2
     no_column no_column no_column no_column False \<noteq> None \<and>
   hash_tbl_size 32 2 = 2 * 100 div DEFAULT_HASH_TBL_OCCUPANCY \<and>
   hash_tbl_size 32 2 = 4"
proof -
  have h: "(0::nat) < 32" "(0::int) \<le> 2" "(2::int) * 100 < 2 ^ 64" "2 * (2::int) < 2 ^ (32 - 1)"
    by simp_all
  from hash_tbl_size_exact [OF h skewed_run] show ?thesis
    by (simp add: skewed_run)
qed

text \<open>C9 as stated fails at the top of the range: for a 32-bit \<open>size_type\<close> and
  \<open>2^30\<close> rows the quotient \<open>2^31\<close> is not a value of \<open>size_type\<close>, and the conversion
  yields \<open>-2^31\<close>.\<close>

theorem hash_tbl_size_wraps:
  "hash_tbl_size 32 (2 ^ 30) = - (2 ^ 31) \<and>
   hash_tbl_size 32 (2 ^ 30) \<noteq> 2 ^ 30 * 100 div DEFAULT_HASH_TBL_OCCUPANCY"
  by (simp add: hash_tbl_size_def to_size_t_def to_size_type_def DEFAULT_HASH_TBL_OCCUPANCY_def)

text \<open>C10 (amended). A returning call of \<open>GenericJoinHash\<close> that never launched the
  materializing probe hands \<open>joined_output\<close> back as it received it, not resized and not
  reallocated; if it got as far as the estimator, this is the zero-estimate path and the
  status is success. A returning call that did launch the materializing probe has
  transposed \<open>actual_found\<close> pairs, \<open>actual_found\<close> being the counter the last probe left,
  and has replaced \<open>joined_output\<close> by an array of as many entries as line 202 asks for:
  \<open>2 * actual_found\<close> whenever that product is in the range of the type in which it is
  computed.\<close>

theorem zero_estimate_leaves_output:
  assumes "GenericJoinHash bits dev jt out0 a a_count b b_count a2 b2 a3 b3 flip = Some (Inr r)"
  shows "if list_ex is_probe_launch (trace r)
         then \<exists>k scanSize actual_found.
            actual_found =
              snd (probe_hash_tbl bits dev k jt (build_hash_tbl b b_count) a a_count a2 b2 a3 b3
                     scanSize) \<and>
            last (trace r) = Transpose actual_found flip \<and>
            int (length (joined_out r)) = to_size_t (to_promoted bits (2 * actual_found)) \<and>
            (bits \<le> 64 \<and> 0 \<le> actual_found \<and> 2 * actual_found < 2 ^ (promoted bits - 1) \<longrightarrow>
               int (length (joined_out r)) = 2 * actual_found)
         else joined_out r = out0 \<and>
            list_ex is_count_launch (trace r) = (status r = cudaSuccess)"
proof -
  let ?ms = "all_matches (build_hash_tbl b b_count) a (nat a_count) a2 b2 a3 b3"
  let ?h = "to_size_type bits (int (length ?ms))"
  from GenericJoinHash_returns [OF assms]
  consider (early) "joined_out r = out0" "\<not> list_ex is_probe_launch (trace r)"
      "list_ex is_count_launch (trace r) = (status r = cudaSuccess)"
    | (late) k sz init where
        "pairs_to_decoupled bits (mem_t dev (to_promoted bits (2 * ?h))) ?h
           (take (nat sz) (arrival dev k ?ms)) flip = Some (joined_out r)"
        "trace r = init @ [Launch_probe sz, Transpose ?h flip]"
    by blast
  then show ?thesis
  proof cases
    case early
    then show ?thesis by simp
  next
    case late
    have probe: "list_ex is_probe_launch (trace r)" by (simp add: late(2) is_probe_launch_def)
    have len: "int (length (joined_out r)) = to_size_t (to_promoted bits (2 * ?h))"
      using length_pairs_to_decoupled [OF late(1)]
      by (simp add: length_mem_t to_size_t_def)
    have last: "last (trace r) = Transpose ?h flip" by (simp add: late(2))
    have "int (length (joined_out r)) = 2 * ?h"
      if "bits \<le> 64" "0 \<le> ?h" "2 * ?h < 2 ^ (promoted bits - 1)"
    proof -
      have p: "to_promoted bits (2 * ?h) = 2 * ?h"
        using that(2,3) by (intro to_promoted_id) simp_all
      have "(2::int) ^ (promoted bits - 1) \<le> 2 ^ 64"
        using that(1) by (intro power_increasing) (simp_all add: promoted_def)
      with that(2,3) have "to_size_t (2 * ?h) = 2 * ?h"
        by (intro to_size_t_id) simp_all
      with len p show ?thesis by simp
    qed
    with probe len last show ?thesis
      by (auto simp: probe_hash_tbl_def)
  qed
qed

theorem zero_estimate_leaves_output_witness:
  "GenericJoinHash 32 quiet_device INNER_JOIN [] skewed_left 11 small_right 2
     no_column no_column no_column no_column False =
   Some (Inr \<lparr>status = cudaSuccess,
     joined_out = [10, 9, 8, 7, 6, 5, 4, 3, 2, 0, 0, 0, 0, 0, 0, 0, 0, 0, 0, 0],
     trace = [New_hash_tbl 4, Launch_build 2, Launch_count 2, Launch_probe 6, Free_buffer,
              Launch_probe 12, Transpose 10 False]\<rparr>) \<and>
   list_ex is_probe_launch [New_hash_tbl 4, Launch_build 2, Launch_count 2, Launch_probe 6,
     Free_buffer, Launch_probe 12, Transpose 10 False] \<and>
   (32::nat) \<le> 64 \<and> (0::int) \<le> 10 \<and> 2 * (10::int) < 2 ^ (promoted 32 - 1) \<and>
   int (length [10, 9, 8, 7, 6, 5, 4, 3, 2, 0, 0, 0, 0, 0, 0, 0, 0, 0, 0, 0::nat]) = 2 * 10 \<and>
   GenericJoinHash 32 quiet_device LEFT_JOIN [5, 6] skewed_left 2 twos 2
     no_column no_column no_column no_column False =
   Some (Inr \<lparr>status = cudaSuccess, joined_out = [5, 6],
     trace = [New_hash_tbl 4, Launch_build 2, Launch_count 2]\<rparr>) \<and>
   \<not> list_ex is_probe_launch [New_hash_tbl 4, Launch_build 2, Launch_count 2] \<and>
   list_ex is_count_launch [New_hash_tbl 4, Launch_build 2, Launch_count 2]"
proof -
  note late = zero_estimate_leaves_output [OF skewed_run]
  note early = zero_estimate_leaves_output [OF stale_run [unfolded LeftJoinHash_def]]
  from late early show ?thesis
    by (simp add: skewed_run stale_run [unfolded LeftJoinHash_def] is_probe_launch_def
        is_count_launch_def promoted_def)
qed

text \<open>C10 as stated fails where \<open>2 * actual_found\<close> leaves the range of the type in which
  line 202 computes it. With a 32-bit \<open>size_type\<close>, two columns of 32768 rows of one key
  make the estimator hand \<open>2^30\<close> to the materializing probe, which ends after one launch
  with the counter \<open>2^30\<close>; line 202 then asks for \<open>-2^31\<close> cells, as a \<open>size_t\<close>
  \<open>2^64 - 2^31\<close>. On no device does \<open>GenericJoinHash\<close> return an array of \<open>2 * 2^30\<close>
  entries.\<close>

theorem reallocated_length_wraps:
  "estimate_scan_size 32 quiet_device cudaSuccess
     (\<lambda>s. probe_hash_tbl_count_common 32 INNER_JOIN (build_hash_tbl ones 32768) ones s
        no_column no_column no_column no_column) 32768 32768
     [New_hash_tbl 65536, Launch_build 32768] =
     Some (Est_done 1073741824 [New_hash_tbl 65536, Launch_build 32768, Launch_count 32768]) \<and>
   probe_loop 32 quiet_device
     (\<lambda>k. probe_hash_tbl 32 quiet_device k INNER_JOIN (build_hash_tbl ones 32768) ones 32768
        no_column no_column no_column no_column) 0 1073741824
     [New_hash_tbl 65536, Launch_build 32768, Launch_count 32768] =
   Some (Probe_done cudaSuccess 1073741824
     (fst (probe_hash_tbl 32 quiet_device 0 INNER_JOIN (build_hash_tbl ones 32768) ones 32768
        no_column no_column no_column no_column 1073741824))
     [New_hash_tbl 65536, Launch_build 32768, Launch_count 32768, Launch_probe 1073741824]) \<and>
   to_size_t (to_promoted 32 (2 * 1073741824)) = 18446744071562067968 \<and>
   (\<forall>dev. case GenericJoinHash 32 dev INNER_JOIN [] ones 32768 ones 32768
               no_column no_column no_column no_column False of
            None \<Rightarrow> True
          | Some x \<Rightarrow> (case x of Inl y \<Rightarrow> True
               | Inr r \<Rightarrow> length (joined_out r) \<noteq> 2 * 1073741824))"
proof -
  have "case GenericJoinHash 32 dev INNER_JOIN [] ones 32768 ones 32768
               no_column no_column no_column no_column False of
            None \<Rightarrow> True
          | Some x \<Rightarrow> (case x of Inl y \<Rightarrow> True
               | Inr r \<Rightarrow> length (joined_out r) \<noteq> 2 * 1073741824)" for dev
    using big_output [of dev INNER_JOIN "[]" False]
    by (auto split: option.splits sum.splits)
  then show ?thesis
    by (simp add: big_estimate big_probe big_cells [simplified] to_size_t_def)
qed

end
